theory Spec2Isabelle
  imports Main "HOL-Library.Char_ord" "HOL-Library.List_Lexorder" "HOL-Library.Sublist"
    "HOL-Library.Product_Lexorder" "HOL-Library.AList"
begin

section \<open>The dependency graph of tdp-lib: \<open>tdp/core/dag.py\<close>\<close>

text \<open>
  The class \<open>Dag\<close> merges the operation declarations of an ordered mapping of collections,
  validates them, builds a directed graph of "operation depends on operation" edges with
  networkx, and answers ordering queries by a lexicographical topological sort.

  Strings are byte strings compared by code point (\<open>Char_ord\<close>, \<open>List_Lexorder\<close>), as Python
  compares \<open>str\<close>. Every \<open>raise\<close> of the source and of the library calls it makes is a value
  of type \<open>error\<close>; a result is \<open>error + 'a\<close> with \<open>Inl\<close> the exception.
\<close>

subsection \<open>Exceptions\<close>

text \<open>
  The three \<open>ValueError\<close>s of \<open>dag.py\<close> are told apart by their message:
  \<open>DuplicateOperation name first second\<close> is
  \<open>'"name" is declared at least twice, first in first, second in second'\<close> (line 125),
  \<open>UnknownDependency dependency operation_name\<close> is
  \<open>'Dependency "dependency" does not exist for operation "operation_name"'\<close> (line 189),
  \<open>NotADag\<close> is \<open>'Not a DAG'\<close> (line 198).
  \<open>KeyError k\<close> is Python's exception for a missing dictionary key \<open>k\<close>. The others are
  raised by networkx (\<open>NetworkXError\<close>, \<open>NetworkXUnfeasible\<close>, \<open>RuntimeError\<close>) and by
  \<open>re.compile\<close> (\<open>ReError\<close>).
\<close>

datatype error =
    DuplicateOperation string string string
  | UnknownDependency string string
  | NotADag
  | KeyError string
  | NetworkXError string
  | NetworkXUnfeasible
  | RuntimeError
  | ReError string

subsection \<open>networkx: \<open>DiGraph\<close>\<close>

text \<open>
  A \<open>networkx.DiGraph\<close> keeps its nodes and, per node, its successors in dictionaries, that
  is in insertion order and without duplicates. The model keeps the list of nodes and the
  list of edges \<open>(u, v)\<close>, both in insertion order; \<open>add_node\<close> and \<open>add_edge\<close> leave
  what is already there alone, and \<open>add_edge\<close> adds missing end points.
\<close>

record digraph =
  nodes :: "string list"
  edges :: "(string \<times> string) list"

definition empty_digraph :: digraph where
  "empty_digraph = \<lparr>nodes = [], edges = []\<rparr>"

definition add_node :: "digraph \<Rightarrow> string \<Rightarrow> digraph" where
  "add_node G n = (if n \<in> set (nodes G) then G else G\<lparr>nodes := nodes G @ [n]\<rparr>)"

definition add_nodes_from :: "digraph \<Rightarrow> string list \<Rightarrow> digraph" where
  "add_nodes_from G ns = foldl add_node G ns"

definition add_edge :: "digraph \<Rightarrow> string \<Rightarrow> string \<Rightarrow> digraph" where
  "add_edge G u v =
     (let G' = add_node (add_node G u) v
      in if (u, v) \<in> set (edges G') then G' else G'\<lparr>edges := edges G' @ [(u, v)]\<rparr>)"

definition successors :: "digraph \<Rightarrow> string \<Rightarrow> string list" where
  "successors G u = map snd (filter (\<lambda>e. fst e = u) (edges G))"

definition predecessors :: "digraph \<Rightarrow> string \<Rightarrow> string list" where
  "predecessors G v = map fst (filter (\<lambda>e. snd e = v) (edges G))"

definition in_degree :: "digraph \<Rightarrow> string \<Rightarrow> int" where
  "in_degree G v = int (length (predecessors G v))"

text \<open>
  \<open>G.subgraph(nbunch)\<close> is the subgraph induced on the nodes of \<open>nbunch\<close> that are in
  \<open>G\<close>; other members of \<open>nbunch\<close> are ignored.
\<close>

definition subgraph :: "digraph \<Rightarrow> string list \<Rightarrow> digraph" where
  "subgraph G nbunch =
     \<lparr>nodes = filter (\<lambda>n. n \<in> set nbunch) (nodes G),
      edges = filter (\<lambda>e. fst e \<in> set nbunch \<and> snd e \<in> set nbunch) (edges G)\<rparr>"

subsection \<open>networkx: \<open>lexicographical_topological_sort\<close>\<close>

text \<open>
  The library function is Kahn's algorithm over a \<open>heapq\<close> of the nodes whose in-degree has
  dropped to zero:
  \<^verbatim>\<open>
    nodeid_map = {n: i for i, n in enumerate(G)}
    def create_tuple(node):
        return key(node), nodeid_map[node], node
    indegree_map = {v: d for v, d in G.in_degree() if d > 0}
    zero_indegree = [create_tuple(v) for v, d in G.in_degree() if d == 0]
    heapq.heapify(zero_indegree)
    while zero_indegree:
        _, _, node = heapq.heappop(zero_indegree)
        if node not in G:
            raise RuntimeError("Graph changed during iteration")
        for _, child in G.edges(node):
            try:
                indegree_map[child] -= 1
            except KeyError as err:
                raise RuntimeError("Graph changed during iteration") from err
            if indegree_map[child] == 0:
                heapq.heappush(zero_indegree, create_tuple(child))
                del indegree_map[child]
        yield node
    if indegree_map:
        raise nx.NetworkXUnfeasible(msg)
  \<close>
  The heap is a list from which \<open>heappop\<close> takes the least entry; an entry is the pair of
  \<open>(key(node), nodeid_map[node])\<close>, ordered lexicographically, and the node. The key may
  raise, so it returns \<open>error + 'k\<close>. \<open>indegree_map\<close> is a dictionary of Python integers.
\<close>

definition index_of :: "'a list \<Rightarrow> 'a \<Rightarrow> nat" where
  "index_of xs x = length (takeWhile (\<lambda>y. y \<noteq> x) xs)"

type_synonym 'k heap = "(('k \<times> nat) \<times> string) list"

definition create_tuple ::
  "digraph \<Rightarrow> (string \<Rightarrow> error + 'k) \<Rightarrow> string \<Rightarrow> error + (('k \<times> nat) \<times> string)" where
  "create_tuple G key node =
     (case key node of Inl e \<Rightarrow> Inl e | Inr k \<Rightarrow> Inr ((k, index_of (nodes G) node), node))"

fun create_tuples :: "digraph \<Rightarrow> (string \<Rightarrow> error + 'k) \<Rightarrow> string list \<Rightarrow> error + 'k heap" where
  "create_tuples G key [] = Inr []"
| "create_tuples G key (v # vs) =
     (case create_tuple G key v of Inl e \<Rightarrow> Inl e
      | Inr t \<Rightarrow> (case create_tuples G key vs of Inl e \<Rightarrow> Inl e | Inr ts \<Rightarrow> Inr (t # ts)))"

fun least :: "('p::linorder \<times> 'a) \<Rightarrow> ('p \<times> 'a) list \<Rightarrow> ('p \<times> 'a)" where
  "least x [] = x"
| "least x (y # ys) = (let m = least y ys in if fst x \<le> fst m then x else m)"

definition heappush :: "('p \<times> 'a) list \<Rightarrow> ('p \<times> 'a) \<Rightarrow> ('p \<times> 'a) list" where
  "heappush h t = h @ [t]"

fun heappop :: "('p::linorder \<times> 'a) list \<Rightarrow> (('p \<times> 'a) \<times> ('p \<times> 'a) list) option" where
  "heappop [] = None"
| "heappop (t # ts) = Some (least t ts, remove1 (least t ts) (t # ts))"

text \<open>The inner \<open>for\<close> loop over the children of the node just popped.\<close>

fun release_children ::
  "digraph \<Rightarrow> (string \<Rightarrow> error + 'k) \<Rightarrow> string list \<Rightarrow> (string \<times> int) list \<Rightarrow> 'k heap
     \<Rightarrow> error + ((string \<times> int) list \<times> 'k heap)" where
  "release_children G key [] indegree_map zero_indegree = Inr (indegree_map, zero_indegree)"
| "release_children G key (child # rest) indegree_map zero_indegree =
     (case map_of indegree_map child of
        None \<Rightarrow> Inl RuntimeError
      | Some d \<Rightarrow>
          if d - 1 = 0 then
            (case create_tuple G key child of
               Inl e \<Rightarrow> Inl e
             | Inr t \<Rightarrow> release_children G key rest (AList.delete child indegree_map)
                          (heappush zero_indegree t))
          else release_children G key rest (AList.update child (d - 1) indegree_map) zero_indegree)"

lemma release_children_measure:
  "release_children G key cs im h = Inr (im', h') \<Longrightarrow> length im' + length h' \<le> length im + length h"
proof (induction cs arbitrary: im h)
  case Nil
  then show ?case by simp
next
  case (Cons c cs)
  show ?case
  proof (cases "map_of im c")
    case None
    with Cons.prems show ?thesis by simp
  next
    case (Some d)
    then have mem: "c \<in> fst ` set im" by (metis domI dom_map_of_conv_image_fst)
    show ?thesis
    proof (cases "d - 1 = 0")
      case True
      with Cons.prems Some obtain t where
        r: "release_children G key cs (AList.delete c im) (heappush h t) = Inr (im', h')"
        by (auto split: sum.splits)
      from mem obtain b where "(c, b) \<in> set im" by auto
      then have "length (AList.delete c im) < length im"
        unfolding AList.delete_eq by (intro length_filter_less[of "(c, b)"]) auto
      with Cons.IH[OF r] show ?thesis by (simp add: heappush_def)
    next
      case False
      with Cons.prems Some have
        r: "release_children G key cs (AList.update c (d - 1) im) h = Inr (im', h')"
        by simp
      have "length (AList.update c (d - 1) im) = length im"
        using mem by (induction im) auto
      with Cons.IH[OF r] show ?thesis by simp
    qed
  qed
qed

lemma least_mem: "least t ts = t \<or> least t ts \<in> set ts"
  by (induction t ts rule: least.induct) (auto simp: Let_def)

lemma heappop_length:
  assumes "heappop h = Some (m, h')"
  shows "Suc (length h') = length h"
proof (cases h)
  case Nil
  with assms show ?thesis by simp
next
  case (Cons t ts)
  with assms have h': "h' = remove1 (least t ts) (t # ts)" by (auto simp del: remove1.simps)
  have "least t ts \<in> set (t # ts)" using least_mem[of t ts] by auto
  then show ?thesis unfolding h' Cons by (simp add: length_remove1 del: remove1.simps)
qed

text \<open>
  The \<open>while\<close> loop. Every round pops one entry, and a child enters the heap only when its
  entry leaves \<open>indegree_map\<close>, so the loop ends.
\<close>

function lts_loop ::
  "digraph \<Rightarrow> (string \<Rightarrow> error + 'k::linorder) \<Rightarrow> (string \<times> int) list \<Rightarrow> 'k heap \<Rightarrow> string list
     \<Rightarrow> error + string list" where
  "lts_loop G key indegree_map zero_indegree out =
     (case heappop zero_indegree of
        None \<Rightarrow> (if indegree_map \<noteq> [] then Inl NetworkXUnfeasible else Inr out)
      | Some ((_, node), zero_indegree') \<Rightarrow>
             if node \<notin> set (nodes G) then Inl RuntimeError
             else
               (case release_children G key (successors G node) indegree_map zero_indegree' of
                  Inl e \<Rightarrow> Inl e
                | Inr (indegree_map', zero_indegree'') \<Rightarrow>
                    lts_loop G key indegree_map' zero_indegree'' (out @ [node])))"
  by pat_completeness auto

termination
  apply (relation "measure (\<lambda>(G, key, im, h, out). length im + length h)")
   apply simp
  apply (auto dest!: release_children_measure heappop_length)
  done

declare lts_loop.simps [simp del]

definition lexicographical_topological_sort ::
  "digraph \<Rightarrow> (string \<Rightarrow> error + 'k::linorder) \<Rightarrow> error + string list" where
  "lexicographical_topological_sort G key =
     (let indegree_map = map (\<lambda>v. (v, in_degree G v)) (filter (\<lambda>v. in_degree G v > 0) (nodes G)) in
      case create_tuples G key (filter (\<lambda>v. in_degree G v = 0) (nodes G)) of
        Inl e \<Rightarrow> Inl e
      | Inr zero_indegree \<Rightarrow> lts_loop G key indegree_map zero_indegree [])"

text \<open>
  \<open>nx.is_directed_acyclic_graph(G)\<close> runs the library's topological sort and answers
  whether it completed without \<open>NetworkXUnfeasible\<close>. Whether Kahn's loop completes does
  not depend on the order in which it takes the ready nodes, so the model runs the loop above
  with the node itself as key (lemma \<open>is_directed_acyclic_graph_iff\<close> below: the answer is
  acyclicity of the edge relation).
\<close>

definition is_directed_acyclic_graph :: "digraph \<Rightarrow> bool" where
  "is_directed_acyclic_graph G =
     (case lexicographical_topological_sort G (\<lambda>n. Inr n) of Inl _ \<Rightarrow> False | Inr _ \<Rightarrow> True)"

subsection \<open>networkx: \<open>ancestors\<close> and \<open>descendants\<close>\<close>

text \<open>
  Both are a breadth-first search from \<open>source\<close>, along the edges reversed for
  \<open>ancestors\<close>, and return the set of nodes reached without \<open>source\<close> itself; a source
  that is not in the graph raises \<open>NetworkXError\<close>. The search keeps a queue and the list of
  nodes seen so far.
\<close>

definition neighbours :: "(string \<times> string) list \<Rightarrow> string \<Rightarrow> string list" where
  "neighbours es x = map snd (filter (\<lambda>e. fst e = x) es)"

lemma set_neighbours: "set (neighbours es x) = {y. (x, y) \<in> set es}"
  by (auto simp: neighbours_def image_iff)

function generic_bfs :: "(string \<times> string) list \<Rightarrow> string list \<Rightarrow> string list \<Rightarrow> string list" where
  "generic_bfs es [] visited = visited"
| "generic_bfs es (x # queue) visited =
     (let new = remdups (filter (\<lambda>y. y \<notin> set visited) (neighbours es x))
      in generic_bfs es (queue @ new) (visited @ new))"
  by pat_completeness auto

termination
proof (relation "inv_image (finite_psubset <*lex*> less_than)
                   (\<lambda>(es, queue, visited). (snd ` set es - set visited, length queue))", goal_cases)
  case 1
  show ?case by auto
next
  case (2 es x queue visited new)
  show ?case
  proof (cases "new = []")
    case True
    then show ?thesis by simp
  next
    case False
    then obtain y where "y \<in> set new" by (cases new) auto
    with 2 have "y \<in> snd ` set es" "y \<notin> set visited"
      by (force simp: set_neighbours)+
    then have "snd ` set es - set (visited @ new) \<subset> snd ` set es - set visited"
      using \<open>y \<in> set new\<close> by auto
    then show ?thesis by (simp add: finite_psubset_def)
  qed
qed

declare generic_bfs.simps [simp del]

definition ancestors :: "digraph \<Rightarrow> string \<Rightarrow> error + string list" where
  "ancestors G source =
     (if source \<notin> set (nodes G) then Inl (NetworkXError source)
      else Inr (removeAll source (generic_bfs (map prod.swap (edges G)) [source] [source])))"

definition descendants :: "digraph \<Rightarrow> string \<Rightarrow> error + string list" where
  "descendants G source =
     (if source \<notin> set (nodes G) then Inl (NetworkXError source)
      else Inr (removeAll source (generic_bfs (edges G) [source] [source])))"

subsection \<open>Operations and collections\<close>

text \<open>
  The classes \<open>Operation\<close> (\<open>tdp.core.operation\<close>) and \<open>Collection\<close>
  (\<open>tdp.core.collection\<close>) are imported by \<open>dag.py\<close> and are not among the sources at
  hand. \<open>Dag\<close> reads the attributes \<open>collection_name\<close>, \<open>depends_on\<close>, \<open>noop\<close>,
  \<open>service\<close>, \<open>action\<close> of an operation and calls \<open>is_service()\<close>; how the class
  derives \<open>service\<close>, \<open>action\<close> and \<open>is_service()\<close> from the name is not visible, so they
  are fields of the record and every theorem holds for whatever the class computes.
  A \<open>raw_operation\<close> is one entry of a DAG YAML file together with these derived
  attributes; \<open>Operation(collection_name=c, **entry)\<close> adds the collection name.

  Of a collection \<open>Dag\<close> reads \<open>dag_yamls\<close>, here the content of each file as
  \<open>yaml.load\<close> returns it (\<open>None\<close> for an empty file), and \<open>operations\<close>, the names that
  have a playbook, here \<open>collection_operations\<close>.
\<close>

record raw_operation =
  name :: string
  depends_on :: "string list"
  noop :: bool
  service :: string
  action :: string
  is_service :: bool

record operation = raw_operation +
  collection_name :: string

definition Operation :: "string \<Rightarrow> raw_operation \<Rightarrow> operation" where
  "Operation cname d = raw_operation.extend d \<lparr>collection_name = cname\<rparr>"

record collection =
  dag_yamls :: "raw_operation list option list"
  collection_operations :: "string list"

text \<open>
  The records \<open>validate\<close> passes to \<open>logger.warning\<close>, in the order of the source:
  \<open>StartOutsideService operation_name service dependency dependency_service collection\<close>
  (line 280), \<open>InstallNeedsNonInstall operation_name dependency collection\<close> (line 290),
  \<open>MissingPreviousAction operation_name previous_service_action collection\<close> (line 320),
  \<open>NoopWithPlaybook operation_name collection\<close> (line 332),
  \<open>MissingPlaybook operation_name collection\<close> (line 337) and
  \<open>ServiceMissingActions service actions\<close> (line 345).
\<close>

datatype warning =
    StartOutsideService string string string string string
  | InstallNeedsNonInstall string string string
  | MissingPreviousAction string string string
  | NoopWithPlaybook string string
  | MissingPlaybook string string
  | ServiceMissingActions string "string list"

subsection \<open>The state of a \<open>Dag\<close>\<close>

text \<open>
  Dictionaries are association lists in insertion order. \<open>priv_x\<close> is the attribute
  \<open>self._x\<close>; \<open>logged\<close> collects what the methods pass to the module's logger.
  (\<open>self._yaml_files\<close> is set to \<open>None\<close> by \<open>__init__\<close> and never read or written again.)
\<close>

type_synonym operations_dict = "(string \<times> operation) list"

record dag_state =
  priv_collections :: "(string \<times> collection) list"
  priv_operations :: "operations_dict option"
  priv_graph :: "digraph option"
  priv_services :: "string list option"
  priv_services_operations :: "(string \<times> operation list) list option"
  logged :: "warning list"

definition Dag :: "(string \<times> collection) list \<Rightarrow> dag_state" where
  "Dag collections =
     \<lparr>priv_collections = collections, priv_operations = None, priv_graph = None,
      priv_services = None, priv_services_operations = None, logged = []\<rparr>"

subsection \<open>Merging the collections (\<open>Dag.operations\<close>, lines 113-136)\<close>

definition load_dag_yamls :: "collection \<Rightarrow> raw_operation list" where
  "load_dag_yamls c = concat (map (\<lambda>f. case f of None \<Rightarrow> [] | Some l \<Rightarrow> l) (dag_yamls c))"

fun add_operations :: "string \<Rightarrow> raw_operation list \<Rightarrow> operations_dict \<Rightarrow> error + operations_dict" where
  "add_operations cname [] ops = Inr ops"
| "add_operations cname (d # operations_list) ops =
     (case map_of ops (name d) of
        Some first \<Rightarrow> Inl (DuplicateOperation (name d) (collection_name first) cname)
      | None \<Rightarrow> add_operations cname operations_list (ops @ [(name d, Operation cname d)]))"

fun merge_collections :: "(string \<times> collection) list \<Rightarrow> operations_dict \<Rightarrow> error + operations_dict" where
  "merge_collections [] ops = Inr ops"
| "merge_collections ((cname, c) # rest) ops =
     (case add_operations cname (load_dag_yamls c) ops of
        Inl e \<Rightarrow> Inl e
      | Inr ops' \<Rightarrow> merge_collections rest ops')"

subsection \<open>\<open>Dag.validate\<close> (lines 256-348)\<close>

definition actions_order :: "string list" where
  "actions_order = [''install'', ''config'', ''start'', ''init'']"

definition actions_for_service :: "string list" where
  "actions_for_service = [''install'', ''config'', ''start'', ''init'']"

text \<open>
  The loop over \<open>operation.depends_on\<close> (lines 273-293). \<open>self.operations[dependency]\<close>
  raises \<open>KeyError\<close> when the dependency is not an operation.
\<close>

fun check_dependencies ::
  "operations_dict \<Rightarrow> string \<Rightarrow> operation \<Rightarrow> string list \<Rightarrow> warning list
     \<Rightarrow> (error + unit) \<times> warning list" where
  "check_dependencies ops operation_name operation [] lg = (Inr (), lg)"
| "check_dependencies ops operation_name operation (dependency # rest) lg =
     (case map_of ops dependency of
        None \<Rightarrow> (Inl (KeyError dependency), lg)
      | Some dep \<Rightarrow>
          (let dependency_service = service dep;
               lg1 = (if suffix ''_start'' dependency \<and> dependency_service \<noteq> service operation
                      then lg @ [StartOutsideService operation_name (service operation) dependency
                                   dependency_service (collection_name operation)]
                      else lg);
               lg2 = (if suffix ''_install'' operation_name \<and> \<not> suffix ''_install'' dependency
                      then lg1 @ [InstallNeedsNonInstall operation_name dependency
                                    (collection_name operation)]
                      else lg1)
           in check_dependencies ops operation_name operation rest lg2))"

definition setdefault :: "'k \<Rightarrow> 'v \<Rightarrow> ('k \<times> 'v) list \<Rightarrow> ('k \<times> 'v) list" where
  "setdefault k v m = (if k \<in> fst ` set m then m else m @ [(k, v)])"

definition add_action ::
  "string \<Rightarrow> string \<Rightarrow> (string \<times> string list) list \<Rightarrow> (string \<times> string list) list" where
  "add_action s a m = map (\<lambda>(s', as). if s' = s then (s', List.insert a as) else (s', as)) m"

text \<open>
  Lines 304-323, inside \<open>if operation.is_service():\<close>. \<open>previous_action_of a\<close> is
  \<open>actions_order[actions_order.index(a) - 1]\<close>, read only for an action of the list other
  than its first.
\<close>

definition previous_action_of :: "string \<Rightarrow> string" where
  "previous_action_of a = actions_order ! (index_of actions_order a - 1)"

definition check_previous_action :: "string \<Rightarrow> operation \<Rightarrow> warning list \<Rightarrow> warning list" where
  "check_previous_action operation_name operation lg =
     (if action operation \<in> set actions_order \<and> action operation \<noteq> actions_order ! 0 then
        (let previous_action = previous_action_of (action operation);
             previous_service_action = service operation @ ''_'' @ previous_action;
             previous_service_action_found = (previous_service_action \<in> set (depends_on operation))
         in if \<not> previous_service_action_found
            then lg @ [MissingPreviousAction operation_name previous_service_action
                         (collection_name operation)]
            else lg)
      else lg)"

text \<open>Lines 327-337.\<close>

definition check_playbook ::
  "(string \<times> collection) list \<Rightarrow> string \<Rightarrow> operation \<Rightarrow> warning list
     \<Rightarrow> (error + unit) \<times> warning list" where
  "check_playbook collections operation_name operation lg =
     (case map_of collections (collection_name operation) of
        None \<Rightarrow> (Inl (KeyError (collection_name operation)), lg)
      | Some c \<Rightarrow>
          if operation_name \<in> set (collection_operations c) then
            (Inr (), if noop operation
                     then lg @ [NoopWithPlaybook operation_name (collection_name operation)] else lg)
          else
            (Inr (), if \<not> noop operation
                     then lg @ [MissingPlaybook operation_name (collection_name operation)] else lg))"

text \<open>The loop over \<open>self.operations.items()\<close> (lines 271-337).\<close>

fun validate_operations ::
  "(string \<times> collection) list \<Rightarrow> operations_dict \<Rightarrow> operations_dict
     \<Rightarrow> (string \<times> string list) list \<Rightarrow> warning list
     \<Rightarrow> (error + (string \<times> string list) list) \<times> warning list" where
  "validate_operations collections ops [] services_actions lg = (Inr services_actions, lg)"
| "validate_operations collections ops ((operation_name, operation) # rest) services_actions lg =
     (case check_dependencies ops operation_name operation (depends_on operation) lg of
        (Inl e, lg1) \<Rightarrow> (Inl e, lg1)
      | (Inr _, lg1) \<Rightarrow>
          (let sa1 = setdefault (service operation) [] services_actions;
               sa2 = (if is_service operation
                      then add_action (service operation) (action operation) sa1 else sa1);
               lg2 = (if is_service operation
                      then check_previous_action operation_name operation lg1 else lg1)
           in case check_playbook collections operation_name operation lg2 of
                (Inl e, lg3) \<Rightarrow> (Inl e, lg3)
              | (Inr _, lg3) \<Rightarrow> validate_operations collections ops rest sa2 lg3))"

text \<open>Lines 342-348.\<close>

definition check_services :: "(string \<times> string list) list \<Rightarrow> warning list" where
  "check_services services_actions =
     map (\<lambda>(s, actions). ServiceMissingActions s actions)
       (filter (\<lambda>(s, actions). \<not> set actions_for_service \<subseteq> set actions) services_actions)"

text \<open>
  The body of \<open>validate\<close> once \<open>self.operations\<close> has been read as \<open>ops\<close>. Warnings
  logged before an exception stay logged.
\<close>

definition validate_body :: "operations_dict \<Rightarrow> dag_state \<Rightarrow> (error + unit) \<times> dag_state" where
  "validate_body ops st =
     (case validate_operations (priv_collections st) ops ops [] (logged st) of
        (Inl e, lg) \<Rightarrow> (Inl e, st\<lparr>logged := lg\<rparr>)
      | (Inr services_actions, lg) \<Rightarrow>
          (Inr (), st\<lparr>logged := lg @ check_services services_actions\<rparr>))"

subsection \<open>The cached properties\<close>

text \<open>
  A property getter returns its result and the state it leaves. \<open>operations\<close> stores the
  merged dictionary in \<open>self._operations\<close> (line 136) before it calls \<open>self.validate()\<close>
  (line 137); \<open>validate\<close> reads \<open>self.operations\<close>, which by then is that dictionary.
\<close>

definition operations :: "dag_state \<Rightarrow> (error + operations_dict) \<times> dag_state" where
  "operations st =
     (case priv_operations st of
        Some ops \<Rightarrow> (Inr ops, st)
      | None \<Rightarrow>
          (case merge_collections (priv_collections st) [] of
             Inl e \<Rightarrow> (Inl e, st)
           | Inr ops \<Rightarrow>
               (case validate_body ops (st\<lparr>priv_operations := Some ops\<rparr>) of
                  (Inl e, st') \<Rightarrow> (Inl e, st')
                | (Inr _, st') \<Rightarrow> (Inr ops, st'))))"

definition validate :: "dag_state \<Rightarrow> (error + unit) \<times> dag_state" where
  "validate st =
     (case operations st of
        (Inl e, st') \<Rightarrow> (Inl e, st')
      | (Inr ops, st') \<Rightarrow> validate_body ops st')"

text \<open>The two nested loops of \<open>Dag.graph\<close> (lines 185-192).\<close>

fun add_dependency_edges ::
  "operations_dict \<Rightarrow> string \<Rightarrow> string list \<Rightarrow> digraph \<Rightarrow> error + digraph" where
  "add_dependency_edges ops operation_name [] DG = Inr DG"
| "add_dependency_edges ops operation_name (dependency # rest) DG =
     (if map_of ops dependency = None then Inl (UnknownDependency dependency operation_name)
      else add_dependency_edges ops operation_name rest (add_edge DG dependency operation_name))"

fun add_operation_edges :: "operations_dict \<Rightarrow> string list \<Rightarrow> digraph \<Rightarrow> error + digraph" where
  "add_operation_edges ops [] DG = Inr DG"
| "add_operation_edges ops (operation_name # rest) DG =
     (case map_of ops operation_name of
        None \<Rightarrow> Inl (KeyError operation_name)
      | Some operation \<Rightarrow>
          (case add_dependency_edges ops operation_name (sort (depends_on operation)) DG of
             Inl e \<Rightarrow> Inl e
           | Inr DG' \<Rightarrow> add_operation_edges ops rest DG'))"

text \<open>Lines 181-198 of \<open>Dag.graph\<close>, once \<open>self.operations\<close> has been read as \<open>ops\<close>.\<close>

definition build_graph :: "operations_dict \<Rightarrow> error + digraph" where
  "build_graph ops =
     (let operation_names = sort (map fst ops);
          DG = add_nodes_from empty_digraph operation_names
      in case add_operation_edges ops operation_names DG of
           Inl e \<Rightarrow> Inl e
         | Inr DG' \<Rightarrow> if is_directed_acyclic_graph DG' then Inr DG' else Inl NotADag)"

definition graph :: "dag_state \<Rightarrow> (error + digraph) \<times> dag_state" where
  "graph st =
     (case priv_graph st of
        Some G \<Rightarrow> (Inr G, st)
      | None \<Rightarrow>
          (case operations st of
             (Inl e, st') \<Rightarrow> (Inl e, st')
           | (Inr ops, st') \<Rightarrow>
               (case build_graph ops of
                  Inl e \<Rightarrow> (Inl e, st')
                | Inr DG \<Rightarrow> (Inr DG, st'\<lparr>priv_graph := Some DG\<rparr>))))"

text \<open>Setters and deleters (lines 103-106, 140-149, 161-164, 172-174, 200-206).\<close>

definition graph_setter :: "dag_state \<Rightarrow> digraph option \<Rightarrow> dag_state" where
  "graph_setter st v = st\<lparr>priv_graph := v\<rparr>"

definition graph_deleter :: "dag_state \<Rightarrow> dag_state" where
  "graph_deleter st = graph_setter st None"

definition services_deleter :: "dag_state \<Rightarrow> dag_state" where
  "services_deleter st = st\<lparr>priv_services := None\<rparr>"

definition services_operations_deleter :: "dag_state \<Rightarrow> dag_state" where
  "services_operations_deleter st = services_deleter (st\<lparr>priv_services_operations := None\<rparr>)"

definition operations_setter :: "dag_state \<Rightarrow> operations_dict option \<Rightarrow> dag_state" where
  "operations_setter st v =
     services_deleter (services_operations_deleter (graph_deleter (st\<lparr>priv_operations := v\<rparr>)))"

definition operations_deleter :: "dag_state \<Rightarrow> dag_state" where
  "operations_deleter st = operations_setter st None"

definition collections_setter :: "dag_state \<Rightarrow> (string \<times> collection) list \<Rightarrow> dag_state" where
  "collections_setter st collections = operations_deleter (st\<lparr>priv_collections := collections\<rparr>)"

text \<open>
  \<open>services_operations\<close> (lines 151-159) stores an empty dictionary before it reads
  \<open>self.operations\<close>, and fills it in place.
\<close>

fun group_by_service ::
  "operation list \<Rightarrow> (string \<times> operation list) list \<Rightarrow> (string \<times> operation list) list" where
  "group_by_service [] m = m"
| "group_by_service (operation # rest) m =
     group_by_service rest
       (map (\<lambda>(s, l). if s = service operation then (s, l @ [operation]) else (s, l))
          (setdefault (service operation) [] m))"

definition services_operations ::
  "dag_state \<Rightarrow> (error + (string \<times> operation list) list) \<times> dag_state" where
  "services_operations st =
     (case priv_services_operations st of
        Some so \<Rightarrow> (Inr so, st)
      | None \<Rightarrow>
          (case operations (st\<lparr>priv_services_operations := Some []\<rparr>) of
             (Inl e, st') \<Rightarrow> (Inl e, st')
           | (Inr ops, st') \<Rightarrow>
               (let so = group_by_service (map snd ops) []
                in (Inr so, st'\<lparr>priv_services_operations := Some so\<rparr>))))"

definition services :: "dag_state \<Rightarrow> (error + string list) \<times> dag_state" where
  "services st =
     (case priv_services st of
        Some s \<Rightarrow> (Inr s, st)
      | None \<Rightarrow>
          (case services_operations st of
             (Inl e, st') \<Rightarrow> (Inl e, st')
           | (Inr so, st') \<Rightarrow> (Inr (map fst so), st'\<lparr>priv_services := Some (map fst so)\<rparr>)))"

subsection \<open>Ordering queries (lines 208-247)\<close>

definition SERVICE_PRIORITY :: "(string \<times> nat) list" where
  "SERVICE_PRIORITY =
     [(''exporter'', 1), (''zookeeper'', 2), (''hadoop'', 3), (''ranger'', 4), (''hdfs'', 5),
      (''yarn'', 6), (''hive'', 7), (''hbase'', 8), (''spark'', 9), (''spark3'', 10),
      (''knox'', 11)]"

definition DEFAULT_SERVICE_PRIORITY :: nat where
  "DEFAULT_SERVICE_PRIORITY = 99"

text \<open>\<open>SERVICE_PRIORITY.get(service, DEFAULT_SERVICE_PRIORITY)\<close>\<close>

definition service_priority :: "string \<Rightarrow> nat" where
  "service_priority s =
     (case map_of SERVICE_PRIORITY s of None \<Rightarrow> DEFAULT_SERVICE_PRIORITY | Some p \<Rightarrow> p)"

text \<open>
  The format \<open>{:02d}\<close> of a natural number: its decimal digits, padded on the left with
  zeros to two characters.
\<close>

fun decimal :: "nat \<Rightarrow> string" where
  "decimal n =
     (if n < 10 then [char_of (48 + n)] else decimal (n div 10) @ [char_of (48 + n mod 10)])"

definition format_02d :: "nat \<Rightarrow> string" where
  "format_02d n = (let s = decimal n in replicate (2 - length s) (CHR ''0'') @ s)"

definition custom_key :: "operations_dict \<Rightarrow> string \<Rightarrow> error + string" where
  "custom_key ops node =
     (case map_of ops node of
        None \<Rightarrow> Inl (KeyError node)
      | Some operation \<Rightarrow>
          (let operation_priority = service_priority (service operation)
           in Inr (format_02d operation_priority @ ''_'' @ node)))"

text \<open>
  \<open>topological_sort(nodes)\<close>: the argument is a collection of node names whose truth value
  is whether it is non-empty (\<open>None\<close> is the empty list here). \<open>custom_key\<close> reads
  \<open>self.operations\<close> each time the sort calls it; the first call is for the first node
  without predecessor, and every later read returns the dictionary cached by then. When no
  node is without predecessor the key is never called.
\<close>

definition topological_sort :: "dag_state \<Rightarrow> string list \<Rightarrow> (error + string list) \<times> dag_state" where
  "topological_sort st nodes_arg =
     (case graph st of
        (Inl e, st') \<Rightarrow> (Inl e, st')
      | (Inr G, st') \<Rightarrow>
          (let G' = (if nodes_arg \<noteq> [] then subgraph G nodes_arg else G)
           in if filter (\<lambda>v. in_degree G' v = 0) (nodes G') = []
              then (lexicographical_topological_sort G' (\<lambda>node. Inl (KeyError node) :: error + string), st')
              else (case operations st' of
                      (Inl e, st'') \<Rightarrow> (Inl e, st'')
                    | (Inr ops, st'') \<Rightarrow>
                        (lexicographical_topological_sort G' (custom_key ops), st''))))"

text \<open>
  The loop \<open>for node in nodes: nodes_set.update(reach(self.graph, node))\<close> of
  \<open>get_operations_to_nodes\<close> and \<open>get_operations_from_nodes\<close>, over the graph read at the
  first round. With no node to loop over the graph is first read by \<open>topological_sort\<close>.
\<close>

fun collect_closure ::
  "(digraph \<Rightarrow> string \<Rightarrow> error + string list) \<Rightarrow> digraph \<Rightarrow> string list \<Rightarrow> string list
     \<Rightarrow> error + string list" where
  "collect_closure reach G [] nodes_set = Inr nodes_set"
| "collect_closure reach G (node # rest) nodes_set =
     (case reach G node of
        Inl e \<Rightarrow> Inl e
      | Inr found \<Rightarrow> collect_closure reach G rest (List.union nodes_set found))"

definition get_operations_to_nodes ::
  "dag_state \<Rightarrow> string list \<Rightarrow> (error + string list) \<times> dag_state" where
  "get_operations_to_nodes st nodes_arg =
     (if nodes_arg = [] then topological_sort st []
      else case graph st of
        (Inl e, st') \<Rightarrow> (Inl e, st')
      | (Inr G, st') \<Rightarrow>
          (case collect_closure ancestors G nodes_arg (remdups nodes_arg) of
             Inl e \<Rightarrow> (Inl e, st')
           | Inr nodes_set \<Rightarrow> topological_sort st' nodes_set))"

definition get_operations_from_nodes ::
  "dag_state \<Rightarrow> string list \<Rightarrow> (error + string list) \<times> dag_state" where
  "get_operations_from_nodes st nodes_arg =
     (if nodes_arg = [] then topological_sort st []
      else case graph st of
        (Inl e, st') \<Rightarrow> (Inl e, st')
      | (Inr G, st') \<Rightarrow>
          (case collect_closure descendants G nodes_arg (remdups nodes_arg) of
             Inl e \<Rightarrow> (Inl e, st')
           | Inr nodes_set \<Rightarrow> topological_sort st' nodes_set))"

text \<open>
  \<open>get_all_operations\<close> passes the graph itself as \<open>nodes\<close>: it is true when it has a
  node, and iterating it gives its nodes.
\<close>

definition get_all_operations :: "dag_state \<Rightarrow> (error + string list) \<times> dag_state" where
  "get_all_operations st =
     (case graph st of
        (Inl e, st') \<Rightarrow> (Inl e, st')
      | (Inr G, st') \<Rightarrow> topological_sort st' (nodes G))"

definition truthy :: "'a list option \<Rightarrow> bool" where
  "truthy x = (case x of None \<Rightarrow> False | Some l \<Rightarrow> l \<noteq> [])"

definition get_operations ::
  "dag_state \<Rightarrow> string list option \<Rightarrow> string list option \<Rightarrow> (error + string list) \<times> dag_state" where
  "get_operations st sources targets =
     (if truthy sources then get_operations_from_nodes st (case sources of Some l \<Rightarrow> l | None \<Rightarrow> [])
      else if truthy targets then get_operations_to_nodes st (case targets of Some l \<Rightarrow> l | None \<Rightarrow> [])
      else get_all_operations st)"

subsection \<open>\<open>filter_operations_regex\<close> (lines 252-254)\<close>

text \<open>
  A compiled pattern is a regular expression over characters. \<open>re.compile\<close>, the parser of
  the pattern syntax, is a parameter: it raises or returns the compiled pattern.
  \<open>Pattern.match\<close> answers whether zero or more characters at the beginning of the string
  match the pattern; \<open>filter\<close> keeps the names for which it returns a match object.
\<close>

datatype rexp =
    Nothing
  | Empty
  | Lit char
  | AnyChar
  | Alt rexp rexp
  | Cat rexp rexp
  | Rep rexp

fun nullable :: "rexp \<Rightarrow> bool" where
  "nullable Nothing = False"
| "nullable Empty = True"
| "nullable (Lit c) = False"
| "nullable AnyChar = False"
| "nullable (Alt r s) = (nullable r \<or> nullable s)"
| "nullable (Cat r s) = (nullable r \<and> nullable s)"
| "nullable (Rep r) = True"

fun after :: "char \<Rightarrow> rexp \<Rightarrow> rexp" where
  "after c Nothing = Nothing"
| "after c Empty = Nothing"
| "after c (Lit d) = (if c = d then Empty else Nothing)"
| "after c AnyChar = Empty"
| "after c (Alt r s) = Alt (after c r) (after c s)"
| "after c (Cat r s) =
     (if nullable r then Alt (Cat (after c r) s) (after c s) else Cat (after c r) s)"
| "after c (Rep r) = Cat (after c r) (Rep r)"


fun re_fullmatch :: "rexp \<Rightarrow> string \<Rightarrow> bool" where
  "re_fullmatch r [] = nullable r"
| "re_fullmatch r (c # cs) = re_fullmatch (after c r) cs"


section \<open>Notions used to state the properties\<close>

text \<open>
  The edges the operations declare: \<open>(d, n)\<close> when the operation stored under \<open>n\<close> lists
  \<open>d\<close> in \<open>depends_on\<close>.
\<close>

definition dependency_edges :: "operations_dict \<Rightarrow> (string \<times> string) set" where
  "dependency_edges ops =
     {(d, n). \<exists>operation. map_of ops n = Some operation \<and> d \<in> set (depends_on operation)}"

text \<open>
  A state is consistent when a cached graph is the one \<open>Dag.graph\<close> builds from the cached
  operations. A new \<open>Dag\<close> is consistent; reading \<open>operations\<close> or \<open>graph\<close> and
  assigning to \<open>collections\<close> or \<open>operations\<close> keep it so (the lemmas
  \<open>consistent_Dag\<close>, \<open>consistent_operations\<close>, \<open>consistent_graph\<close> and the two for the
  setters, below); only an assignment to \<open>graph\<close> can break it.
\<close>

definition consistent :: "dag_state \<Rightarrow> bool" where
  "consistent st =
     (case priv_graph st of
        None \<Rightarrow> True
      | Some G \<Rightarrow>
          (case priv_operations st of None \<Rightarrow> False | Some ops \<Rightarrow> build_graph ops = Inr G))"

text \<open>The priority and the key \<open>custom_key\<close> gives a node that is an operation.\<close>

definition node_priority :: "operations_dict \<Rightarrow> string \<Rightarrow> nat" where
  "node_priority ops node =
     (case map_of ops node of
        None \<Rightarrow> DEFAULT_SERVICE_PRIORITY
      | Some operation \<Rightarrow> service_priority (service operation))"

definition sort_key :: "operations_dict \<Rightarrow> string \<Rightarrow> string" where
  "sort_key ops node = format_02d (node_priority ops node) @ ''_'' @ node"


text \<open>\<open>accepts r w\<close>: the pattern \<open>r\<close> matches the whole of \<open>w\<close>.\<close>

inductive accepts :: "rexp \<Rightarrow> string \<Rightarrow> bool" where
  acc_Empty: "accepts Empty []"
| acc_Lit: "accepts (Lit c) [c]"
| acc_AnyChar: "accepts AnyChar [c]"
| acc_AltL: "accepts r w \<Longrightarrow> accepts (Alt r s) w"
| acc_AltR: "accepts s w \<Longrightarrow> accepts (Alt r s) w"
| acc_Cat: "accepts r u \<Longrightarrow> accepts s v \<Longrightarrow> accepts (Cat r s) (u @ v)"
| acc_Rep0: "accepts (Rep r) []"
| acc_RepS: "accepts r u \<Longrightarrow> accepts (Rep r) v \<Longrightarrow> accepts (Rep r) (u @ v)"


subsection \<open>Example inputs\<close>

definition raw :: "string \<Rightarrow> string \<Rightarrow> string \<Rightarrow> bool \<Rightarrow> string list \<Rightarrow> raw_operation" where
  "raw n s a svc ds =
     \<lparr>name = n, depends_on = ds, noop = False, service = s, action = a, is_service = svc\<rparr>"

definition one_collection :: "string \<Rightarrow> raw_operation list \<Rightarrow> (string \<times> collection)" where
  "one_collection cname ds = (cname, \<lparr>dag_yamls = [Some ds], collection_operations = map name ds\<rparr>)"


text \<open>
  \<open>zookeeper_config\<close> needs \<open>zookeeper_install\<close>; \<open>hdfs_install\<close> needs nothing and
  comes first in alphabetical order.
\<close>

definition example_lifecycle :: dag_state where
  "example_lifecycle =
     Dag [one_collection ''tdp''
            [raw ''zookeeper_install'' ''zookeeper'' ''install'' True [],
             raw ''zookeeper_config'' ''zookeeper'' ''config'' True [''zookeeper_install''],
             raw ''hdfs_install'' ''hdfs'' ''install'' True []]]"



text \<open>\<open>a_config\<close> depends on \<open>missing_op\<close>, which no collection declares.\<close>

definition example_missing :: dag_state where
  "example_missing = Dag [one_collection ''tdp'' [raw ''a_config'' ''a'' ''config'' True [''missing_op'']]]"


text \<open>\<open>a_start\<close> and \<open>b_start\<close> depend on each other.\<close>

definition example_cycle :: dag_state where
  "example_cycle =
     Dag [one_collection ''tdp''
            [raw ''a_start'' ''a'' ''start'' True [''b_start''],
             raw ''b_start'' ''b'' ''start'' True [''a_start'']]]"

definition example_cycle_ops :: operations_dict where
  "example_cycle_ops =
     [(''a_start'', Operation ''tdp'' (raw ''a_start'' ''a'' ''start'' True [''b_start''])),
      (''b_start'', Operation ''tdp'' (raw ''b_start'' ''b'' ''start'' True [''a_start'']))]"

text \<open>
  \<open>hdfs_namenode_start\<close> is an operation of a component of the service \<open>hdfs\<close>:
  its action is \<open>start\<close> and \<open>is_service()\<close> is false. \<open>hdfs_start\<close> is the operation of
  the service itself.
\<close>

definition example_component :: dag_state where
  "example_component =
     Dag [one_collection ''tdp'' [raw ''hdfs_namenode_start'' ''hdfs'' ''start'' False []]]"

definition example_service_start :: dag_state where
  "example_service_start =
     Dag [one_collection ''tdp'' [raw ''hdfs_start'' ''hdfs'' ''start'' True []]]"

section \<open>What the library calls compute\<close>

text \<open>
  The graphs \<open>Dag\<close> builds are well formed: no node and no edge twice, every end point a
  node. \<open>preds G n\<close> are the direct predecessors of \<open>n\<close>; given the set \<open>P\<close> of nodes
  already emitted, \<open>ready G P\<close> are the nodes Kahn's loop may emit next. \<open>greedy G k P xs\<close>
  says that \<open>xs\<close> continues an emission \<open>P\<close> by taking, at each step, a ready node of least
  key, until none is ready.
\<close>

definition wf_digraph :: "digraph \<Rightarrow> bool" where
  "wf_digraph G \<longleftrightarrow> distinct (nodes G) \<and> distinct (edges G) \<and>
     (\<forall>e \<in> set (edges G). fst e \<in> set (nodes G) \<and> snd e \<in> set (nodes G))"

definition preds :: "digraph \<Rightarrow> string \<Rightarrow> string set" where
  "preds G n = {u. (u, n) \<in> set (edges G)}"

definition ready :: "digraph \<Rightarrow> string set \<Rightarrow> string set" where
  "ready G P = {n \<in> set (nodes G) - P. preds G n \<subseteq> P}"

inductive greedy :: "digraph \<Rightarrow> (string \<Rightarrow> 'k::linorder) \<Rightarrow> string set \<Rightarrow> string list \<Rightarrow> bool"
  for G k where
  greedy_Nil: "ready G P = {} \<Longrightarrow> greedy G k P []"
| greedy_Cons: "x \<in> ready G P \<Longrightarrow> (\<forall>y \<in> ready G P. k x \<le> k y) \<Longrightarrow> greedy G k (insert x P) xs
     \<Longrightarrow> greedy G k P (x # xs)"

definition lts_inv ::
  "digraph \<Rightarrow> (string \<Rightarrow> 'k::linorder) \<Rightarrow> (string \<times> int) list \<Rightarrow> 'k heap \<Rightarrow> string list \<Rightarrow> bool" where
  "lts_inv G k im h out \<longleftrightarrow>
     distinct out \<and> set out \<subseteq> set (nodes G) \<and> (\<forall>n \<in> set out. preds G n \<subseteq> set out) \<and>
     distinct (map snd h) \<and> snd ` set h = ready G (set out) \<and>
     (\<forall>t \<in> set h. fst t = (k (snd t), index_of (nodes G) (snd t))) \<and>
     distinct (map fst im) \<and>
     (\<forall>n. map_of im n =
        (if n \<in> set (nodes G) - set out \<and> \<not> preds G n \<subseteq> set out
         then Some (int (card (preds G n - set out))) else None))"

subsection \<open>The topological sort\<close>

lemma set_predecessors: "set (predecessors G n) = preds G n"
  by (auto simp: predecessors_def preds_def image_iff)

lemma set_successors: "set (successors G u) = {v. (u, v) \<in> set (edges G)}"
  by (auto simp: successors_def image_iff)

lemma distinct_successors: "distinct (edges G) \<Longrightarrow> distinct (successors G u)"
  unfolding successors_def by (auto simp: distinct_map inj_on_def)

lemma distinct_predecessors: "distinct (edges G) \<Longrightarrow> distinct (predecessors G v)"
  unfolding predecessors_def by (auto simp: distinct_map inj_on_def)

lemma in_degree_card: "distinct (edges G) \<Longrightarrow> in_degree G v = int (card (preds G v))"
  unfolding in_degree_def using distinct_predecessors[of G v] set_predecessors[of G v]
  by (metis distinct_card)

lemma finite_preds: "finite (preds G n)"
  using set_predecessors[of G n] by (metis List.finite_set)

text \<open>What one pass over the children of a popped node does.\<close>

lemma release_children_spec:
  assumes "distinct cs" "distinct (map fst im)"
    and "\<forall>c \<in> set cs. key c = Inr (k c)"
    and "\<forall>c \<in> set cs. \<exists>d. map_of im c = Some d"
  shows "\<exists>im'. release_children G key cs im h =
           Inr (im', h @ map (\<lambda>c. ((k c, index_of (nodes G) c), c)) (filter (\<lambda>c. map_of im c = Some 1) cs))
         \<and> distinct (map fst im')
         \<and> (\<forall>n. map_of im' n =
               (if n \<in> set cs then (if map_of im n = Some 1 then None else map_option (\<lambda>d. d - 1) (map_of im n))
                else map_of im n))"
  using assms
proof (induction cs arbitrary: im h)
  case Nil
  then show ?case by simp
next
  case (Cons c cs)
  from Cons.prems obtain d where d: "map_of im c = Some d" by auto
  have kc: "key c = Inr (k c)" using Cons.prems by simp
  have cs: "distinct cs" "c \<notin> set cs" using Cons.prems by auto
  show ?case
  proof (cases "d = 1")
    case True
    let ?im1 = "AList.delete c im"
    let ?h1 = "heappush h ((k c, index_of (nodes G) c), c)"
    have m1: "map_of ?im1 = (map_of im)(c := None)" by (simp add: AList.delete_conv')
    have "\<exists>im'. release_children G key cs ?im1 ?h1 =
           Inr (im', ?h1 @ map (\<lambda>c. ((k c, index_of (nodes G) c), c)) (filter (\<lambda>c. map_of ?im1 c = Some 1) cs))
         \<and> distinct (map fst im')
         \<and> (\<forall>n. map_of im' n =
               (if n \<in> set cs then (if map_of ?im1 n = Some 1 then None else map_option (\<lambda>d. d - 1) (map_of ?im1 n))
                else map_of ?im1 n))"
      using Cons.prems cs by (intro Cons.IH) (auto simp: m1 AList.distinct_delete)
    then obtain im' where
      r: "release_children G key cs ?im1 ?h1 =
           Inr (im', ?h1 @ map (\<lambda>c. ((k c, index_of (nodes G) c), c)) (filter (\<lambda>c. map_of ?im1 c = Some 1) cs))"
      and dist: "distinct (map fst im')"
      and m: "\<forall>n. map_of im' n =
               (if n \<in> set cs then (if map_of ?im1 n = Some 1 then None else map_option (\<lambda>d. d - 1) (map_of ?im1 n))
                else map_of ?im1 n)"
      by blast
    have f: "filter (\<lambda>c. map_of ?im1 c = Some 1) cs = filter (\<lambda>c. map_of im c = Some 1) cs"
      using cs by (intro filter_cong) (auto simp: m1)
    have "release_children G key (c # cs) im h =
           Inr (im', h @ map (\<lambda>c. ((k c, index_of (nodes G) c), c)) (filter (\<lambda>c. map_of im c = Some 1) (c # cs)))"
      using r d True kc by (simp add: f create_tuple_def heappush_def)
    moreover have "\<forall>n. map_of im' n =
               (if n \<in> set (c # cs) then (if map_of im n = Some 1 then None else map_option (\<lambda>d. d - 1) (map_of im n))
                else map_of im n)"
      using m cs d True by (auto simp: m1)
    ultimately show ?thesis using dist by blast
  next
    case False
    let ?im1 = "AList.update c (d - 1) im"
    have m1: "map_of ?im1 = (map_of im)(c \<mapsto> d - 1)" by (simp add: AList.update_conv')
    have "\<exists>im'. release_children G key cs ?im1 h =
           Inr (im', h @ map (\<lambda>c. ((k c, index_of (nodes G) c), c)) (filter (\<lambda>c. map_of ?im1 c = Some 1) cs))
         \<and> distinct (map fst im')
         \<and> (\<forall>n. map_of im' n =
               (if n \<in> set cs then (if map_of ?im1 n = Some 1 then None else map_option (\<lambda>d. d - 1) (map_of ?im1 n))
                else map_of ?im1 n))"
      using Cons.prems cs by (intro Cons.IH) (auto simp: m1 AList.distinct_update)
    then obtain im' where
      r: "release_children G key cs ?im1 h =
           Inr (im', h @ map (\<lambda>c. ((k c, index_of (nodes G) c), c)) (filter (\<lambda>c. map_of ?im1 c = Some 1) cs))"
      and dist: "distinct (map fst im')"
      and m: "\<forall>n. map_of im' n =
               (if n \<in> set cs then (if map_of ?im1 n = Some 1 then None else map_option (\<lambda>d. d - 1) (map_of ?im1 n))
                else map_of ?im1 n)"
      by blast
    have f: "filter (\<lambda>c. map_of ?im1 c = Some 1) cs = filter (\<lambda>c. map_of im c = Some 1) cs"
      using cs by (intro filter_cong) (auto simp: m1)
    have "release_children G key (c # cs) im h =
           Inr (im', h @ map (\<lambda>c. ((k c, index_of (nodes G) c), c)) (filter (\<lambda>c. map_of im c = Some 1) (c # cs)))"
      using r d False by (simp add: f)
    moreover have "\<forall>n. map_of im' n =
               (if n \<in> set (c # cs) then (if map_of im n = Some 1 then None else map_option (\<lambda>d. d - 1) (map_of im n))
                else map_of im n)"
      using m cs d False by (auto simp: m1)
    ultimately show ?thesis using dist by blast
  qed
qed

lemma least_le: "t' \<in> set (t # ts) \<Longrightarrow> fst (least t ts) \<le> fst t'"
  by (induction t ts arbitrary: t' rule: least.induct) (fastforce simp: Let_def)+

lemma heappop_Some:
  assumes "heappop h = Some (m, h')"
  shows "m \<in> set h" "h' = remove1 m h" "\<forall>t \<in> set h. fst m \<le> fst t"
proof -
  from assms obtain t ts where h: "h = t # ts" by (cases h) auto
  with assms have m: "m = least t ts" and h': "h' = remove1 m (t # ts)"
    by (auto simp del: remove1.simps)
  show "m \<in> set h" using least_mem[of t ts] m h by auto
  show "h' = remove1 m h" using h' h by simp
  show "\<forall>t \<in> set h. fst m \<le> fst t" using least_le[of _ t ts] m h by blast
qed

lemma card_Diff_insert_int:
  assumes "finite A" "x \<in> A" "x \<notin> P"
  shows "int (card (A - insert x P)) = int (card (A - P)) - 1"
proof -
  have e: "A - insert x P = (A - P) - {x}" by auto
  have xin: "x \<in> A - P" using assms by auto
  have fin: "finite (A - P)" using assms by auto
  have "0 < card (A - P)" using xin fin by (auto simp: card_gt_0_iff)
  moreover have "card (A - insert x P) = card (A - P) - 1"
    unfolding e using xin by (simp add: card_Diff_singleton)
  ultimately show ?thesis by linarith
qed

lemma lts_step:
  fixes k :: "string \<Rightarrow> 'k::linorder"
  assumes wf: "wf_digraph G"
    and key: "\<forall>n \<in> set (nodes G). key n = Inr (k n)"
    and inv: "lts_inv G k im h out"
    and pop: "heappop h = Some ((p, x), h')"
  shows "x \<in> ready G (set out)"
    and "\<forall>y \<in> ready G (set out). k x \<le> k y"
    and "\<exists>im' h''. release_children G key (successors G x) im h' = Inr (im', h'')
           \<and> lts_inv G k im' h'' (out @ [x])"
proof -
  let ?P = "set out"
  let ?N = "set (nodes G)"
  let ?cs = "successors G x"
  let ?tup = "\<lambda>c. ((k c, index_of (nodes G) c), c)"
  from inv have dout: "distinct out" and sub: "?P \<subseteq> ?N"
    and closed: "\<forall>n \<in> ?P. preds G n \<subseteq> ?P"
    and dh: "distinct (map snd h)" and hr: "snd ` set h = ready G ?P"
    and ht: "\<forall>t \<in> set h. fst t = (k (snd t), index_of (nodes G) (snd t))"
    and dim: "distinct (map fst im)"
    and im: "\<And>n. map_of im n =
        (if n \<in> ?N - ?P \<and> \<not> preds G n \<subseteq> ?P
         then Some (int (card (preds G n - ?P))) else None)"
    unfolding lts_inv_def by blast+
  note hp = heappop_Some[OF pop]
  from hp(1) hr show xr: "x \<in> ready G ?P" by force
  then have xN: "x \<in> ?N" and xP: "x \<notin> ?P" and xpre: "preds G x \<subseteq> ?P"
    by (auto simp: ready_def)
  show "\<forall>y \<in> ready G ?P. k x \<le> k y"
  proof
    fix y assume "y \<in> ready G ?P"
    with hr obtain t where t: "t \<in> set h" "snd t = y" by force
    with hp(3) have "p \<le> fst t" by force
    moreover have "p = (k x, index_of (nodes G) x)" using ht hp(1) by force
    moreover have "fst t = (k y, index_of (nodes G) y)" using ht t by force
    ultimately show "k x \<le> k y" by (auto simp: less_eq_prod_def)
  qed
  have dcs: "distinct ?cs" using wf by (simp add: wf_digraph_def distinct_successors)
  have cs_edge: "\<And>c. c \<in> set ?cs \<longleftrightarrow> x \<in> preds G c"
    by (simp add: set_successors preds_def)
  have cs_N: "\<And>c. c \<in> set ?cs \<Longrightarrow> c \<in> ?N"
    using wf by (force simp: set_successors wf_digraph_def)
  have cs_P: "\<And>c. c \<in> set ?cs \<Longrightarrow> c \<notin> ?P"
    using closed xP cs_edge by blast
  have cs_x: "x \<notin> set ?cs" using xpre xP cs_edge by blast
  have cs_im: "\<And>c. c \<in> set ?cs \<Longrightarrow> map_of im c = Some (int (card (preds G c - ?P)))"
    using im cs_N cs_P cs_edge xP by auto
  have "\<exists>im'. release_children G key ?cs im h' =
           Inr (im', h' @ map ?tup (filter (\<lambda>c. map_of im c = Some 1) ?cs))
         \<and> distinct (map fst im')
         \<and> (\<forall>n. map_of im' n =
               (if n \<in> set ?cs then (if map_of im n = Some 1 then None else map_option (\<lambda>d. d - 1) (map_of im n))
                else map_of im n))"
    using dcs dim key cs_N cs_im by (intro release_children_spec) auto
  then obtain im' where
    r: "release_children G key ?cs im h' = Inr (im', h' @ map ?tup (filter (\<lambda>c. map_of im c = Some 1) ?cs))"
    and dim': "distinct (map fst im')"
    and im': "\<And>n. map_of im' n =
               (if n \<in> set ?cs then (if map_of im n = Some 1 then None else map_option (\<lambda>d. d - 1) (map_of im n))
                else map_of im n)"
    by blast
  let ?new = "filter (\<lambda>c. map_of im c = Some 1) ?cs"
  let ?h'' = "h' @ map ?tup ?new"
  have card1: "\<And>c. c \<in> set ?cs \<Longrightarrow> (map_of im c = Some 1) = (preds G c \<subseteq> insert x ?P)"
  proof -
    fix c assume c: "c \<in> set ?cs"
    then have xin: "x \<in> preds G c - ?P" using cs_edge xP by auto
    have fin: "finite (preds G c - ?P)" using finite_preds by auto
    have "(card (preds G c - ?P) = 1) = (preds G c - ?P = {x})"
    proof
      assume "card (preds G c - ?P) = 1"
      then obtain z where "preds G c - ?P = {z}" by (auto simp: card_1_singleton_iff)
      with xin show "preds G c - ?P = {x}" by auto
    qed simp
    then show "(map_of im c = Some 1) = (preds G c \<subseteq> insert x ?P)"
      using cs_im[OF c] xin by auto
  qed
  have set_h': "set h' = set h - {(p, x)}"
    using hp(2) dh by (simp add: distinct_map)
  have inj: "inj_on snd (set h)" using dh by (simp add: distinct_map)
  have snd_h': "snd ` set h' = ready G ?P - {x}"
  proof -
    have "snd ` (set h - {(p, x)}) = snd ` set h - snd ` {(p, x)}"
      using inj hp(1) by (intro inj_on_image_set_diff[of snd "set h"]) auto
    then show ?thesis using set_h' hr by simp
  qed
  have ready': "ready G (insert x ?P) = (ready G ?P - {x}) \<union> set ?new"
  proof (intro set_eqI iffI)
    fix n assume n: "n \<in> ready G (insert x ?P)"
    show "n \<in> (ready G ?P - {x}) \<union> set ?new"
    proof (cases "preds G n \<subseteq> ?P")
      case True
      with n show ?thesis by (auto simp: ready_def)
    next
      case False
      with n have "x \<in> preds G n" by (auto simp: ready_def)
      then have "n \<in> set ?cs" using cs_edge by simp
      moreover from n have "preds G n \<subseteq> insert x ?P" by (simp add: ready_def)
      ultimately show ?thesis using card1 by simp
    qed
  next
    fix n assume "n \<in> (ready G ?P - {x}) \<union> set ?new"
    then show "n \<in> ready G (insert x ?P)"
    proof
      assume "n \<in> ready G ?P - {x}"
      then show ?thesis by (auto simp: ready_def)
    next
      assume "n \<in> set ?new"
      then have c: "n \<in> set ?cs" and "map_of im n = Some 1" by auto
      then have "preds G n \<subseteq> insert x ?P" using card1 by simp
      with c cs_N cs_P cs_x show ?thesis by (auto simp: ready_def)
    qed
  qed
  have new_not_ready: "\<And>c. c \<in> set ?cs \<Longrightarrow> c \<notin> ready G ?P"
    using cs_edge xP by (auto simp: ready_def)
  have "lts_inv G k im' ?h'' (out @ [x])"
    unfolding lts_inv_def
  proof (intro conjI)
    show "distinct (out @ [x])" using dout xP by simp
    show "set (out @ [x]) \<subseteq> ?N" using sub xN by simp
    show "\<forall>n \<in> set (out @ [x]). preds G n \<subseteq> set (out @ [x])"
      using closed xpre by auto
    have "distinct (map snd h')" using dh hp(2) by (simp add: distinct_map distinct_remove1 inj_on_def)
    moreover have "distinct (map snd (map ?tup ?new))" using dcs by (simp add: comp_def)
    moreover have "snd ` set h' \<inter> set ?new = {}" using snd_h' new_not_ready by auto
    ultimately show "distinct (map snd ?h'')" by (auto simp: comp_def)
    show "snd ` set ?h'' = ready G (set (out @ [x]))"
      using snd_h' ready' by (auto simp: image_Un image_image)
    show "\<forall>t \<in> set ?h''. fst t = (k (snd t), index_of (nodes G) (snd t))"
      using ht set_h' by auto
    show "distinct (map fst im')" by (rule dim')
    show "\<forall>n. map_of im' n =
        (if n \<in> ?N - set (out @ [x]) \<and> \<not> preds G n \<subseteq> set (out @ [x])
         then Some (int (card (preds G n - set (out @ [x])))) else None)"
    proof
      fix n
      show "map_of im' n =
        (if n \<in> ?N - set (out @ [x]) \<and> \<not> preds G n \<subseteq> set (out @ [x])
         then Some (int (card (preds G n - set (out @ [x])))) else None)"
      proof (cases "n \<in> set ?cs")
        case True
        then have xin: "x \<in> preds G n" using cs_edge by simp
        have cd: "int (card (preds G n - insert x ?P)) = int (card (preds G n - ?P)) - 1"
          using finite_preds xin xP by (rule card_Diff_insert_int)
        have nx: "n \<noteq> x" using True cs_x by auto
        show ?thesis
          using True im'[of n] cs_im[OF True] card1[OF True] cs_N[OF True] cs_P[OF True] nx cd
          by auto
      next
        case False
        then have xnot: "x \<notin> preds G n" using cs_edge by simp
        then have e1: "preds G n - insert x ?P = preds G n - ?P" by auto
        have e2: "(preds G n \<subseteq> insert x ?P) = (preds G n \<subseteq> ?P)" using xnot by auto
        show ?thesis
          using False im'[of n] im[of n] e1 e2 xpre by auto
      qed
    qed
  qed
  with r show "\<exists>im' h''. release_children G key ?cs im h' = Inr (im', h'')
           \<and> lts_inv G k im' h'' (out @ [x])" by blast
qed

lemma ready_exists:
  assumes wf: "wf_digraph G" and ac: "acyclic (set (edges G))"
    and U: "U \<subseteq> set (nodes G) - P" "U \<noteq> {}" "\<forall>n \<in> U. preds G n \<subseteq> U \<union> P"
  shows "\<exists>z \<in> U. z \<in> ready G P"
proof -
  have "wf (set (edges G))" using ac by (simp add: finite_acyclic_wf)
  moreover from U(2) obtain u where "u \<in> U" by auto
  ultimately obtain z where z: "z \<in> U" "\<And>y. (y, z) \<in> set (edges G) \<Longrightarrow> y \<notin> U"
    by (rule wfE_min) blast
  then have "preds G z \<subseteq> P" using U(3) by (auto simp: preds_def)
  with z(1) U(1) show ?thesis by (auto simp: ready_def)
qed

lemma preds_nodes: "wf_digraph G \<Longrightarrow> preds G n \<subseteq> set (nodes G)"
  by (force simp: wf_digraph_def preds_def)

lemma lts_loop_spec:
  fixes k :: "string \<Rightarrow> 'k::linorder"
  assumes wf: "wf_digraph G"
    and key: "\<forall>n \<in> set (nodes G). key n = Inr (k n)"
    and inv: "lts_inv G k im h out"
  shows "case lts_loop G key im h out of
           Inl e \<Rightarrow> e = NetworkXUnfeasible \<and> \<not> acyclic (set (edges G))
         | Inr res \<Rightarrow> \<exists>xs. res = out @ xs \<and> greedy G k (set out) xs \<and>
                        set res = set (nodes G) \<and> distinct res"
  using inv
proof (induction "length im + length h" arbitrary: im h out rule: less_induct)
  case less
  let ?P = "set out"
  note inv = less.prems
  from inv have dout: "distinct out" and sub: "?P \<subseteq> set (nodes G)"
    and hr: "snd ` set h = ready G ?P"
    and im: "\<And>n. map_of im n =
        (if n \<in> set (nodes G) - ?P \<and> \<not> preds G n \<subseteq> ?P
         then Some (int (card (preds G n - ?P))) else None)"
    unfolding lts_inv_def by blast+
  show ?case
  proof (cases "heappop h")
    case None
    then have "h = []" by (cases h) auto
    with hr have r0: "ready G ?P = {}" by simp
    show ?thesis
    proof (cases "im = []")
      case True
      have "set (nodes G) \<subseteq> ?P"
      proof
        fix n assume n: "n \<in> set (nodes G)"
        show "n \<in> ?P"
        proof (rule ccontr)
          assume "n \<notin> ?P"
          moreover have "map_of im n = None" using True by simp
          ultimately have "n \<in> ready G ?P" using n im[of n] by (auto simp: ready_def split: if_splits)
          with r0 show False by simp
        qed
      qed
      with sub have "?P = set (nodes G)" by auto
      moreover have "greedy G k ?P []" using r0 by (rule greedy_Nil)
      moreover have "lts_loop G key im h out = Inr out"
        using None True by (subst lts_loop.simps) simp
      ultimately show ?thesis using dout by simp
    next
      case False
      then obtain n d ims where "im = (n, d) # ims" by (cases im) auto
      then have "map_of im n = Some d" by simp
      with im[of n] have n: "n \<in> set (nodes G) - ?P" by (auto split: if_splits)
      have "\<not> acyclic (set (edges G))"
      proof
        assume "acyclic (set (edges G))"
        then have "\<exists>z \<in> set (nodes G) - ?P. z \<in> ready G ?P"
          using wf n preds_nodes[OF wf] by (intro ready_exists) auto
        with r0 show False by auto
      qed
      moreover have "lts_loop G key im h out = Inl NetworkXUnfeasible"
        using None False by (subst lts_loop.simps) simp
      ultimately show ?thesis by simp
    qed
  next
    case (Some a)
    then obtain p x h' where pop: "heappop h = Some ((p, x), h')" by (cases a) auto
    from lts_step[OF wf key inv pop] obtain im' h'' where
      xr: "x \<in> ready G ?P" and xmin: "\<forall>y \<in> ready G ?P. k x \<le> k y"
      and r: "release_children G key (successors G x) im h' = Inr (im', h'')"
      and inv': "lts_inv G k im' h'' (out @ [x])"
      by blast
    have xN: "x \<in> set (nodes G)" using xr by (simp add: ready_def)
    have "length im' + length h'' < length im + length h"
      using release_children_measure[OF r] heappop_length[OF pop] by simp
    from less.hyps[OF this inv']
    have IH: "case lts_loop G key im' h'' (out @ [x]) of
           Inl e \<Rightarrow> e = NetworkXUnfeasible \<and> \<not> acyclic (set (edges G))
         | Inr res \<Rightarrow> \<exists>xs. res = (out @ [x]) @ xs \<and> greedy G k (set (out @ [x])) xs \<and>
                        set res = set (nodes G) \<and> distinct res" .
    have unf: "lts_loop G key im h out = lts_loop G key im' h'' (out @ [x])"
      using pop r xN by (subst lts_loop.simps) simp
    show ?thesis
    proof (cases "lts_loop G key im' h'' (out @ [x])")
      case (Inl e)
      with IH unf show ?thesis by simp
    next
      case (Inr res)
      with IH obtain xs where res: "res = (out @ [x]) @ xs"
        and g: "greedy G k (set (out @ [x])) xs"
        and rest: "set res = set (nodes G)" "distinct res" by auto
      have "greedy G k ?P (x # xs)" using xr xmin g by (intro greedy_Cons) auto
      with res rest unf Inr show ?thesis by simp
    qed
  qed
qed

lemma create_tuples_total:
  assumes "\<forall>n \<in> set vs. key n = Inr (k n)"
  shows "create_tuples G key vs = Inr (map (\<lambda>c. ((k c, index_of (nodes G) c), c)) vs)"
  using assms by (induction vs) (auto simp: create_tuple_def)

lemma map_of_graph: "map_of (map (\<lambda>v. (v, f v)) vs) n = (if n \<in> set vs then Some (f n) else None)"
  by (induction vs) auto

lemma lts_inv_init:
  fixes k :: "string \<Rightarrow> 'k::linorder"
  assumes wf: "wf_digraph G"
  shows "lts_inv G k (map (\<lambda>v. (v, in_degree G v)) (filter (\<lambda>v. in_degree G v > 0) (nodes G)))
           (map (\<lambda>c. ((k c, index_of (nodes G) c), c)) (filter (\<lambda>v. in_degree G v = 0) (nodes G))) []"
proof -
  have dn: "distinct (nodes G)" and de: "distinct (edges G)" using wf by (auto simp: wf_digraph_def)
  have deg: "\<And>v. in_degree G v = int (card (preds G v))" using de by (rule in_degree_card)
  have z: "\<And>v. (in_degree G v = 0) = (preds G v = {})"
    using deg finite_preds by (simp add: card_eq_0_iff)
  have p: "\<And>v. (in_degree G v > 0) = (preds G v \<noteq> {})"
    using z deg by (metis of_nat_0_less_iff card_gt_0_iff finite_preds)
  show ?thesis
    unfolding lts_inv_def
  proof (intro conjI)
    show "distinct (map snd (map (\<lambda>c. ((k c, index_of (nodes G) c), c)) (filter (\<lambda>v. in_degree G v = 0) (nodes G))))"
      using dn by (simp add: comp_def)
    show "snd ` set (map (\<lambda>c. ((k c, index_of (nodes G) c), c)) (filter (\<lambda>v. in_degree G v = 0) (nodes G))) = ready G (set [])"
      using z by (auto simp: ready_def image_iff)
    show "distinct (map fst (map (\<lambda>v. (v, in_degree G v)) (filter (\<lambda>v. in_degree G v > 0) (nodes G))))"
      using dn by (simp add: comp_def)
    show "\<forall>n. map_of (map (\<lambda>v. (v, in_degree G v)) (filter (\<lambda>v. in_degree G v > 0) (nodes G))) n =
        (if n \<in> set (nodes G) - set [] \<and> \<not> preds G n \<subseteq> set []
         then Some (int (card (preds G n - set []))) else None)"
      using p deg by (auto simp: map_of_graph)
  qed auto
qed

lemma lts_spec:
  fixes k :: "string \<Rightarrow> 'k::linorder"
  assumes wf: "wf_digraph G"
    and key: "\<forall>n \<in> set (nodes G). key n = Inr (k n)"
  shows "case lexicographical_topological_sort G key of
           Inl e \<Rightarrow> e = NetworkXUnfeasible \<and> \<not> acyclic (set (edges G))
         | Inr res \<Rightarrow> greedy G k {} res \<and> set res = set (nodes G) \<and> distinct res"
proof -
  let ?im = "map (\<lambda>v. (v, in_degree G v)) (filter (\<lambda>v. in_degree G v > 0) (nodes G))"
  let ?zs = "filter (\<lambda>v. in_degree G v = 0) (nodes G)"
  let ?h = "map (\<lambda>c. ((k c, index_of (nodes G) c), c)) ?zs"
  have ct: "create_tuples G key ?zs = Inr ?h" using key by (intro create_tuples_total) auto
  have "lexicographical_topological_sort G key = lts_loop G key ?im ?h []"
    unfolding lexicographical_topological_sort_def Let_def ct by simp
  moreover note lts_loop_spec[OF wf key lts_inv_init[OF wf, of k]]
  ultimately show ?thesis by (auto split: sum.splits)
qed

lemma index_of_less: "x \<in> set xs \<Longrightarrow> index_of xs x < length xs"
  unfolding index_of_def by (induction xs) auto

lemma index_of_append_in: "x \<in> set as \<Longrightarrow> index_of (as @ bs) x = index_of as x"
  unfolding index_of_def by (induction as) auto

lemma index_of_append_notin: "x \<notin> set as \<Longrightarrow> index_of (as @ x # bs) x = length as"
  unfolding index_of_def by (induction as) auto

lemma greedy_fresh: "greedy G k P xs \<Longrightarrow> distinct xs \<and> set xs \<inter> P = {}"
  by (induction rule: greedy.induct) (auto simp: ready_def)

lemma greedy_preds_before:
  "greedy G k P xs \<Longrightarrow> xs = as @ v # bs \<Longrightarrow> (u, v) \<in> set (edges G) \<Longrightarrow> u \<in> P \<union> set as"
proof (induction arbitrary: as rule: greedy.induct)
  case (greedy_Nil P)
  then show ?case by simp
next
  case (greedy_Cons x P xs)
  show ?case
  proof (cases as)
    case Nil
    with greedy_Cons.prems have "v = x" by simp
    with greedy_Cons.hyps(1) greedy_Cons.prems(2) show ?thesis by (auto simp: ready_def preds_def)
  next
    case (Cons a as')
    with greedy_Cons.prems have "xs = as' @ v # bs" "a = x" by auto
    with greedy_Cons.IH[of as'] greedy_Cons.prems(2) Cons show ?thesis by auto
  qed
qed

lemma greedy_edge_order:
  assumes g: "greedy G k {} xs" and e: "(u, v) \<in> set (edges G)" and v: "v \<in> set xs"
  shows "u \<in> set xs \<and> index_of xs u < index_of xs v"
proof -
  from v obtain as bs where xs: "xs = as @ v # bs" by (auto simp: in_set_conv_decomp)
  from greedy_fresh[OF g] xs have vn: "v \<notin> set as" by auto
  from greedy_preds_before[OF g xs e] have u: "u \<in> set as" by simp
  have "index_of xs v = length as" unfolding xs using vn by (rule index_of_append_notin)
  moreover have "index_of xs u = index_of as u" unfolding xs using u by (rule index_of_append_in)
  moreover have "index_of as u < length as" using u by (rule index_of_less)
  ultimately show ?thesis using u xs by simp
qed

lemma greedy_acyclic:
  assumes g: "greedy G k {} xs" and all: "set xs = set (nodes G)" and wf: "wf_digraph G"
  shows "acyclic (set (edges G))"
proof -
  have "set (edges G) \<subseteq> inv_image less_than (index_of xs)"
  proof
    fix e assume e: "e \<in> set (edges G)"
    obtain u v where uv: "e = (u, v)" by (cases e)
    with e wf all have "v \<in> set xs" by (force simp: wf_digraph_def)
    with greedy_edge_order[OF g] e uv show "e \<in> inv_image less_than (index_of xs)" by auto
  qed
  moreover have "wf (inv_image less_than (index_of xs))" by simp
  ultimately have "wf (set (edges G))" by (rule wf_subset[rotated])
  then show ?thesis by (rule wf_acyclic)
qed


text \<open>With distinct keys the greedy sequence is unique.\<close>

lemma greedy_unique:
  fixes k :: "string \<Rightarrow> 'k::linorder"
  assumes inj: "inj_on k (set (nodes G))"
  shows "greedy G k P xs \<Longrightarrow> greedy G k P ys \<Longrightarrow> xs = ys"
proof (induction arbitrary: ys rule: greedy.induct)
  case (greedy_Nil P)
  from greedy_Nil.prems greedy_Nil.hyps show ?case by (cases rule: greedy.cases) auto
next
  case (greedy_Cons x P xs)
  from greedy_Cons.prems show ?case
  proof (cases rule: greedy.cases)
    case greedy_Nil
    with greedy_Cons.hyps(1) show ?thesis by simp
  next
    case (greedy_Cons y ys')
    with greedy_Cons.hyps(1,2) have "k x \<le> k y" "k y \<le> k x" by auto
    then have "k x = k y" by simp
    moreover have "x \<in> set (nodes G)" "y \<in> set (nodes G)"
      using greedy_Cons.hyps(1) greedy_Cons(2) by (auto simp: ready_def)
    ultimately have "x = y" using inj by (auto dest: inj_onD)
    with greedy_Cons greedy_Cons.IH[of ys'] show ?thesis by simp
  qed
qed

subsection \<open>Reachability and subgraphs\<close>

lemma generic_bfs_upper:
  "set (generic_bfs es queue visited) \<subseteq> set visited \<union> (set es)\<^sup>* `` set queue"
proof (induction es queue visited rule: generic_bfs.induct)
  case (1 es visited)
  then show ?case by (simp add: generic_bfs.simps)
next
  case (2 es x queue visited)
  let ?new = "remdups (filter (\<lambda>y. y \<notin> set visited) (neighbours es x))"
  have step: "A \<subseteq> V \<union> N \<union> (Rq \<union> Rn) \<Longrightarrow> N \<subseteq> Rx \<Longrightarrow> Rn \<subseteq> Rx \<Longrightarrow> A \<subseteq> V \<union> (Rx \<union> Rq)"
    for A V N Rq Rn Rx :: "string set" by blast
  have "set (generic_bfs es (queue @ ?new) (visited @ ?new))
          \<subseteq> set (visited @ ?new) \<union> (set es)\<^sup>* `` set (queue @ ?new)"
    by (rule "2.IH") simp
  then have f1: "set (generic_bfs es (queue @ ?new) (visited @ ?new))
          \<subseteq> set visited \<union> set ?new \<union> ((set es)\<^sup>* `` set queue \<union> (set es)\<^sup>* `` set ?new)"
    by (simp add: Image_Un Un_assoc)
  have f2: "set ?new \<subseteq> (set es)\<^sup>* `` {x}" by (auto simp: set_neighbours)
  have f3: "(set es)\<^sup>* `` set ?new \<subseteq> (set es)\<^sup>* `` {x}"
    by (auto simp: set_neighbours intro: converse_rtrancl_into_rtrancl)
  have e1: "(set es)\<^sup>* `` set (x # queue) = (set es)\<^sup>* `` {x} \<union> (set es)\<^sup>* `` set queue"
    by auto
  have e2: "generic_bfs es (x # queue) visited = generic_bfs es (queue @ ?new) (visited @ ?new)"
    by (subst generic_bfs.simps) (simp add: Let_def)
  from step[OF f1 f2 f3] show ?case unfolding e2 e1 .
qed

lemma generic_bfs_closed:
  assumes "set queue \<subseteq> set visited"
    and "\<forall>y \<in> set visited - set queue. \<forall>z. (y, z) \<in> set es \<longrightarrow> z \<in> set visited"
  shows "set visited \<subseteq> set (generic_bfs es queue visited) \<and>
         (\<forall>y \<in> set (generic_bfs es queue visited). \<forall>z. (y, z) \<in> set es \<longrightarrow>
            z \<in> set (generic_bfs es queue visited))"
  using assms
proof (induction es queue visited rule: generic_bfs.induct)
  case (1 es visited)
  then show ?case by (simp add: generic_bfs.simps)
next
  case (2 es x queue visited)
  let ?new = "remdups (filter (\<lambda>y. y \<notin> set visited) (neighbours es x))"
  have a: "set (queue @ ?new) \<subseteq> set (visited @ ?new)" using "2.prems"(1) by auto
  have b: "\<forall>y \<in> set (visited @ ?new) - set (queue @ ?new). \<forall>z. (y, z) \<in> set es \<longrightarrow> z \<in> set (visited @ ?new)"
  proof (intro ballI allI impI)
    fix y z assume y: "y \<in> set (visited @ ?new) - set (queue @ ?new)" and e: "(y, z) \<in> set es"
    show "z \<in> set (visited @ ?new)"
    proof (cases "y = x")
      case True
      with e show ?thesis by (auto simp: set_neighbours)
    next
      case False
      with y have "y \<in> set visited - set (x # queue)" by auto
      with "2.prems"(2) e have "z \<in> set visited" by blast
      then show ?thesis by simp
    qed
  qed
  have e2: "generic_bfs es (x # queue) visited = generic_bfs es (queue @ ?new) (visited @ ?new)"
    by (subst generic_bfs.simps) (simp add: Let_def)
  from "2.IH"[OF refl a b] show ?case unfolding e2 by simp
qed

lemma generic_bfs_reach:
  "set (generic_bfs es [s] [s]) = {z. (s, z) \<in> (set es)\<^sup>*}"
proof
  show "set (generic_bfs es [s] [s]) \<subseteq> {z. (s, z) \<in> (set es)\<^sup>*}"
    using generic_bfs_upper[of es "[s]" "[s]"] by auto
next
  have c: "s \<in> set (generic_bfs es [s] [s])"
    "\<forall>y \<in> set (generic_bfs es [s] [s]). \<forall>z. (y, z) \<in> set es \<longrightarrow> z \<in> set (generic_bfs es [s] [s])"
    using generic_bfs_closed[of "[s]" "[s]" es] by auto
  show "{z. (s, z) \<in> (set es)\<^sup>*} \<subseteq> set (generic_bfs es [s] [s])"
  proof
    fix z assume "z \<in> {z. (s, z) \<in> (set es)\<^sup>*}"
    then have "(s, z) \<in> (set es)\<^sup>*" by simp
    then show "z \<in> set (generic_bfs es [s] [s])"
      using c by (induction rule: rtrancl_induct) auto
  qed
qed

lemma ancestors_spec:
  "s \<in> set (nodes G) \<Longrightarrow>
   \<exists>as. ancestors G s = Inr as \<and> set as = {a. (a, s) \<in> (set (edges G))\<^sup>*} - {s}"
proof -
  have "set (map prod.swap (edges G)) = (set (edges G))\<inverse>" by auto
  then have "\<And>z. ((s, z) \<in> (set (map prod.swap (edges G)))\<^sup>*) = ((z, s) \<in> (set (edges G))\<^sup>*)"
    by (simp add: rtrancl_converse)
  then show "s \<in> set (nodes G) \<Longrightarrow> ?thesis"
    by (auto simp: ancestors_def generic_bfs_reach)
qed

lemma descendants_spec:
  "s \<in> set (nodes G) \<Longrightarrow>
   \<exists>ds. descendants G s = Inr ds \<and> set ds = {d. (s, d) \<in> (set (edges G))\<^sup>*} - {s}"
  by (auto simp: descendants_def generic_bfs_reach)

lemma wf_digraph_subgraph: "wf_digraph G \<Longrightarrow> wf_digraph (subgraph G ns)"
  by (auto simp: wf_digraph_def subgraph_def)

lemma acyclic_subgraph: "acyclic (set (edges G)) \<Longrightarrow> acyclic (set (edges (subgraph G ns)))"
  by (rule acyclic_subset) (auto simp: subgraph_def)

lemma ready_subgraph:
  assumes "\<forall>n \<in> set ns. preds G n \<subseteq> set ns"
  shows "ready (subgraph G ns) (P \<inter> set ns) = ready G P \<inter> set ns"
  using assms by (auto simp: ready_def preds_def subgraph_def)

lemma greedy_subgraph:
  fixes k :: "string \<Rightarrow> 'k::linorder"
  assumes closed: "\<forall>n \<in> set ns. preds G n \<subseteq> set ns"
  shows "greedy G k P xs \<Longrightarrow> greedy (subgraph G ns) k (P \<inter> set ns) (filter (\<lambda>n. n \<in> set ns) xs)"
proof (induction rule: greedy.induct)
  case (greedy_Nil P)
  then show ?case using ready_subgraph[OF closed, of P] by (auto intro: greedy.greedy_Nil)
next
  case (greedy_Cons x P xs)
  show ?case
  proof (cases "x \<in> set ns")
    case True
    then have "insert x P \<inter> set ns = insert x (P \<inter> set ns)" by auto
    with greedy_Cons.IH have "greedy (subgraph G ns) k (insert x (P \<inter> set ns)) (filter (\<lambda>n. n \<in> set ns) xs)"
      by simp
    moreover have "x \<in> ready (subgraph G ns) (P \<inter> set ns)"
      using greedy_Cons.hyps(1) True ready_subgraph[OF closed, of P] by simp
    moreover have "\<forall>y \<in> ready (subgraph G ns) (P \<inter> set ns). k x \<le> k y"
      using greedy_Cons.hyps(2) ready_subgraph[OF closed, of P] by simp
    ultimately show ?thesis using True by (simp add: greedy.greedy_Cons)
  next
    case False
    then have "insert x P \<inter> set ns = P \<inter> set ns" by auto
    with greedy_Cons.IH False show ?thesis by simp
  qed
qed

subsection \<open>Building the graph\<close>

lemma wf_digraph_empty: "wf_digraph empty_digraph"
  by (simp add: wf_digraph_def empty_digraph_def)

lemma add_node_props:
  "wf_digraph G \<Longrightarrow> wf_digraph (add_node G n)"
  "set (nodes (add_node G n)) = insert n (set (nodes G))"
  "edges (add_node G n) = edges G"
  by (auto simp: wf_digraph_def add_node_def)

lemma add_nodes_from_props:
  "wf_digraph G \<Longrightarrow> wf_digraph (add_nodes_from G ns)"
  "set (nodes (add_nodes_from G ns)) = set (nodes G) \<union> set ns"
  "edges (add_nodes_from G ns) = edges G"
  unfolding add_nodes_from_def
  by (induction ns arbitrary: G) (simp_all add: add_node_props)

lemma add_edge_props:
  "wf_digraph G \<Longrightarrow> wf_digraph (add_edge G u v)"
  "set (nodes (add_edge G u v)) = insert u (insert v (set (nodes G)))"
  "set (edges (add_edge G u v)) = insert (u, v) (set (edges G))"
proof -
  let ?G' = "add_node (add_node G u) v"
  have n: "set (nodes ?G') = insert u (insert v (set (nodes G)))" by (auto simp: add_node_props)
  have e: "edges ?G' = edges G" by (simp add: add_node_props)
  show "set (nodes (add_edge G u v)) = insert u (insert v (set (nodes G)))"
    using n by (simp add: add_edge_def Let_def)
  show "set (edges (add_edge G u v)) = insert (u, v) (set (edges G))"
    using e by (auto simp: add_edge_def Let_def)
  assume "wf_digraph G"
  then have "wf_digraph ?G'" by (simp add: add_node_props)
  then show "wf_digraph (add_edge G u v)"
    using n by (auto simp: add_edge_def Let_def wf_digraph_def)
qed

lemma add_dependency_edges_Inr:
  "add_dependency_edges ops nm deps DG = Inr DG' \<Longrightarrow> wf_digraph DG \<Longrightarrow>
     wf_digraph DG' \<and>
     set (nodes DG) \<subseteq> set (nodes DG') \<and>
     set (nodes DG') \<subseteq> set (nodes DG) \<union> set deps \<union> {nm} \<and>
     set (edges DG') = set (edges DG) \<union> {(d, nm) | d. d \<in> set deps} \<and>
     (\<forall>d \<in> set deps. map_of ops d \<noteq> None)"
proof (induction deps arbitrary: DG)
  case Nil
  then show ?case by auto
next
  case (Cons d deps)
  from Cons.prems have r: "map_of ops d \<noteq> None"
    and step: "add_dependency_edges ops nm deps (add_edge DG d nm) = Inr DG'"
    by (auto split: if_splits)
  from Cons.IH[OF step add_edge_props(1)[OF Cons.prems(2)]] r
  show ?case by (auto simp: add_edge_props)
qed

lemma add_dependency_edges_total:
  "\<forall>d \<in> set deps. map_of ops d \<noteq> None \<Longrightarrow> \<exists>DG'. add_dependency_edges ops nm deps DG = Inr DG'"
  by (induction deps arbitrary: DG) auto

lemma add_operation_edges_Inr:
  "add_operation_edges ops names DG = Inr DG' \<Longrightarrow> wf_digraph DG \<Longrightarrow>
     wf_digraph DG' \<and>
     set (nodes DG) \<subseteq> set (nodes DG') \<and>
     set (nodes DG') \<subseteq> set (nodes DG) \<union> set names \<union> fst ` set ops \<and>
     set (edges DG') = set (edges DG) \<union> {(d, n). n \<in> set names \<and> (d, n) \<in> dependency_edges ops}"
proof (induction names arbitrary: DG)
  case Nil
  then show ?case by simp
next
  case (Cons n names)
  from Cons.prems obtain operation DG1 where
    op: "map_of ops n = Some operation"
    and d: "add_dependency_edges ops n (sort (depends_on operation)) DG = Inr DG1"
    and rest: "add_operation_edges ops names DG1 = Inr DG'"
    by (auto split: option.splits sum.splits)
  from add_dependency_edges_Inr[OF d Cons.prems(2)] have
    wf1: "wf_digraph DG1"
    and n1: "set (nodes DG) \<subseteq> set (nodes DG1)"
      "set (nodes DG1) \<subseteq> set (nodes DG) \<union> set (depends_on operation) \<union> {n}"
    and e1: "set (edges DG1) = set (edges DG) \<union> {(d, n) | d. d \<in> set (depends_on operation)}"
    and res: "\<forall>d \<in> set (depends_on operation). map_of ops d \<noteq> None"
    by auto
  have depn: "{(d, n) | d. d \<in> set (depends_on operation)} = {(d, n'). n' = n \<and> (d, n') \<in> dependency_edges ops}"
    using op by (auto simp: dependency_edges_def)
  have resolved: "set (depends_on operation) \<subseteq> fst ` set ops"
  proof
    fix d assume "d \<in> set (depends_on operation)"
    with res have "map_of ops d \<noteq> None" by simp
    then show "d \<in> fst ` set ops" by (simp add: map_of_eq_None_iff)
  qed
  from Cons.IH[OF rest wf1] have
    "wf_digraph DG'" "set (nodes DG1) \<subseteq> set (nodes DG')"
    "set (nodes DG') \<subseteq> set (nodes DG1) \<union> set names \<union> fst ` set ops"
    "set (edges DG') = set (edges DG1) \<union> {(d, n). n \<in> set names \<and> (d, n) \<in> dependency_edges ops}"
    by auto
  then show ?case using n1 e1 depn resolved by auto
qed

lemma add_operation_edges_total:
  assumes "\<forall>n \<in> set names. map_of ops n \<noteq> None"
    and "\<forall>(d, n) \<in> dependency_edges ops. map_of ops d \<noteq> None"
  shows "\<exists>DG'. add_operation_edges ops names DG = Inr DG'"
  using assms(1)
proof (induction names arbitrary: DG)
  case Nil
  then show ?case by simp
next
  case (Cons n names)
  then obtain operation where op: "map_of ops n = Some operation" by auto
  have "\<forall>d \<in> set (sort (depends_on operation)). map_of ops d \<noteq> None"
    using assms(2) op by (auto simp: dependency_edges_def)
  from add_dependency_edges_total[OF this] obtain DG1 where
    "add_dependency_edges ops n (sort (depends_on operation)) DG = Inr DG1" by blast
  with Cons op show ?case by auto
qed

lemma is_directed_acyclic_graph_iff:
  assumes wf: "wf_digraph G"
  shows "is_directed_acyclic_graph G \<longleftrightarrow> acyclic (set (edges G))"
proof -
  have key: "\<forall>n \<in> set (nodes G). (Inr n :: error + string) = Inr (id n)" by simp
  note spec = lts_spec[OF wf key]
  show ?thesis
  proof (cases "lexicographical_topological_sort G (\<lambda>n. Inr n :: error + string)")
    case (Inl e)
    with spec show ?thesis by (simp add: is_directed_acyclic_graph_def)
  next
    case (Inr xs)
    with spec have "greedy G id {} xs" "set xs = set (nodes G)" by auto
    then have "acyclic (set (edges G))" using wf by (rule greedy_acyclic)
    with Inr show ?thesis by (simp add: is_directed_acyclic_graph_def)
  qed
qed

lemma build_graph_Inr:
  assumes "build_graph ops = Inr G"
  shows "wf_digraph G" "acyclic (set (edges G))" "set (nodes G) = fst ` set ops"
    "set (edges G) = dependency_edges ops"
proof -
  let ?names = "sort (map fst ops)"
  let ?DG = "add_nodes_from empty_digraph ?names"
  from assms have e: "add_operation_edges ops ?names ?DG = Inr G"
    and dag: "is_directed_acyclic_graph G"
    by (auto simp: build_graph_def Let_def split: sum.splits if_splits)
  have wf0: "wf_digraph ?DG" by (simp add: add_nodes_from_props wf_digraph_empty)
  have n0: "set (nodes ?DG) = fst ` set ops" by (simp add: add_nodes_from_props empty_digraph_def)
  have e0: "edges ?DG = []" by (simp add: add_nodes_from_props empty_digraph_def)
  from add_operation_edges_Inr[OF e wf0] have
    wf: "wf_digraph G" and n1: "set (nodes ?DG) \<subseteq> set (nodes G)"
    and n2: "set (nodes G) \<subseteq> set (nodes ?DG) \<union> set ?names \<union> fst ` set ops"
    and ed: "set (edges G) = set (edges ?DG) \<union> {(d, n). n \<in> set ?names \<and> (d, n) \<in> dependency_edges ops}"
    by auto
  show "wf_digraph G" by (rule wf)
  show "acyclic (set (edges G))" using dag is_directed_acyclic_graph_iff[OF wf] by simp
  show "set (nodes G) = fst ` set ops" using n0 n1 n2 by auto
  have "\<And>d n. (d, n) \<in> dependency_edges ops \<Longrightarrow> n \<in> fst ` set ops"
    by (auto simp: dependency_edges_def dest!: map_of_SomeD intro: rev_image_eqI)
  then show "set (edges G) = dependency_edges ops" using ed e0 by auto
qed

lemma build_graph_cases:
  assumes "\<forall>(d, n) \<in> dependency_edges ops. map_of ops d \<noteq> None"
  shows "build_graph ops = Inl NotADag \<and> \<not> acyclic (dependency_edges ops) \<or>
         (\<exists>G. build_graph ops = Inr G \<and> acyclic (dependency_edges ops))"
proof -
  let ?names = "sort (map fst ops)"
  let ?DG = "add_nodes_from empty_digraph ?names"
  have "\<forall>n \<in> set ?names. map_of ops n \<noteq> None" by (auto simp: map_of_eq_None_iff)
  from add_operation_edges_total[OF this assms] obtain G where
    e: "add_operation_edges ops ?names ?DG = Inr G" by blast
  have wf0: "wf_digraph ?DG" by (simp add: add_nodes_from_props wf_digraph_empty)
  have e0: "edges ?DG = []" by (simp add: add_nodes_from_props empty_digraph_def)
  from add_operation_edges_Inr[OF e wf0] have wf: "wf_digraph G"
    and ed: "set (edges G) = set (edges ?DG) \<union> {(d, n). n \<in> set ?names \<and> (d, n) \<in> dependency_edges ops}"
    by auto
  have "\<And>d n. (d, n) \<in> dependency_edges ops \<Longrightarrow> n \<in> fst ` set ops"
    by (auto simp: dependency_edges_def dest!: map_of_SomeD intro: rev_image_eqI)
  then have "set (edges G) = dependency_edges ops" using ed e0 by auto
  with is_directed_acyclic_graph_iff[OF wf] e show ?thesis
    by (auto simp: build_graph_def Let_def)
qed

subsection \<open>The sort key\<close>

lemma zero_digit: "CHR ''0'' = char_of (48 :: nat)"
  by code_simp

lemma format_02d_two_digits:
  assumes "n < 100"
  shows "format_02d n = [char_of (48 + n div 10), char_of (48 + n mod 10)]"
proof (cases "n < 10")
  case True
  then show ?thesis by (simp add: format_02d_def zero_digit)
next
  case False
  with assms have "n div 10 < 10" by simp
  with False show ?thesis
    by (subst format_02d_def, subst decimal.simps) simp
qed

lemma service_priority_bound: "service_priority s < 100"
proof -
  have "\<forall>p \<in> snd ` set SERVICE_PRIORITY. p < 100" by (simp add: SERVICE_PRIORITY_def)
  then show ?thesis
    by (auto simp: service_priority_def DEFAULT_SERVICE_PRIORITY_def split: option.splits
        dest!: map_of_SomeD intro: rev_image_eqI)
qed

lemma node_priority_bound: "node_priority ops n < 100"
  by (simp add: node_priority_def service_priority_bound DEFAULT_SERVICE_PRIORITY_def split: option.splits)





lemma sort_key_inj: "inj_on (sort_key ops) A"
proof (rule inj_onI)
  fix a b assume "sort_key ops a = sort_key ops b"
  moreover have "length (format_02d (node_priority ops a)) = 2" "length (format_02d (node_priority ops b)) = 2"
    by (simp_all add: format_02d_two_digits node_priority_bound)
  ultimately show "a = b" by (simp add: sort_key_def)
qed

lemma custom_key_total: "n \<in> fst ` set ops \<Longrightarrow> custom_key ops n = Inr (sort_key ops n)"
  by (auto simp: custom_key_def sort_key_def node_priority_def map_of_eq_None_iff split: option.splits)

subsection \<open>The cached properties\<close>

lemma validate_body_state: "validate_body ops st = (r, st') \<Longrightarrow> \<exists>lg. st' = st\<lparr>logged := lg\<rparr>"
  by (auto simp: validate_body_def split: prod.splits sum.splits)

lemma operations_cached: "priv_operations st = Some ops \<Longrightarrow> operations st = (Inr ops, st)"
  by (simp add: operations_def)

lemma operations_result:
  assumes "operations st = (r, st')"
  shows "priv_graph st' = priv_graph st" "priv_collections st' = priv_collections st"
    "r = Inr ops \<Longrightarrow> priv_operations st' = Some ops"
  using assms
  by (auto simp: operations_def split: option.splits sum.splits prod.splits dest!: validate_body_state)

lemma graph_cached: "priv_graph st = Some G \<Longrightarrow> graph st = (Inr G, st)"
  by (simp add: graph_def)

lemma graph_result:
  assumes "consistent st" "graph st = (Inr G, st')"
  shows "\<exists>ops. priv_operations st' = Some ops \<and> priv_graph st' = Some G \<and> build_graph ops = Inr G"
proof (cases "priv_graph st")
  case None
  with assms(2) obtain ops st1 where o: "operations st = (Inr ops, st1)"
    and b: "build_graph ops = Inr G" and st': "st' = st1\<lparr>priv_graph := Some G\<rparr>"
    by (auto simp: graph_def split: prod.splits sum.splits)
  from operations_result(3)[OF o] have "priv_operations st1 = Some ops" by simp
  with b st' show ?thesis by simp
next
  case (Some G')
  with assms show ?thesis by (auto simp: graph_def consistent_def split: option.splits)
qed

lemma lts_no_roots:
  assumes "filter (\<lambda>v. in_degree G v = 0) (nodes G) = []"
  shows "lexicographical_topological_sort G key = lexicographical_topological_sort G key'"
  unfolding lexicographical_topological_sort_def Let_def assms
  by (simp add: lts_loop.simps)

lemma topological_sort_core:
  assumes "priv_operations st = Some ops" "priv_graph st = Some G"
  shows "(case graph st of
            (Inl e, st') \<Rightarrow> (Inl e, st')
          | (Inr G0, st') \<Rightarrow>
              (let G' = f G0
               in if filter (\<lambda>v. in_degree G' v = 0) (nodes G') = []
                  then (lexicographical_topological_sort G' (\<lambda>node. Inl (KeyError node) :: error + string), st')
                  else (case operations st' of
                          (Inl e, st'') \<Rightarrow> (Inl e, st'')
                        | (Inr ops, st'') \<Rightarrow>
                            (lexicographical_topological_sort G' (custom_key ops), st''))))
         = (lexicographical_topological_sort (f G) (custom_key ops), st)"
proof (cases "filter (\<lambda>v. in_degree (f G) v = 0) (nodes (f G)) = []")
  case True
  from lts_no_roots[OF True] have
    "lexicographical_topological_sort (f G) (\<lambda>node. Inl (KeyError node) :: error + string) =
     lexicographical_topological_sort (f G) (custom_key ops)" .
  with True assms show ?thesis by (simp add: graph_cached Let_def)
next
  case False
  with assms show ?thesis by (simp add: graph_cached operations_cached Let_def)
qed

lemma topological_sort_cached:
  assumes "priv_operations st = Some ops" "priv_graph st = Some G"
  shows "topological_sort st ns =
           (lexicographical_topological_sort (if ns \<noteq> [] then subgraph G ns else G) (custom_key ops), st)"
  unfolding topological_sort_def
  by (rule topological_sort_core[where f = "\<lambda>G. if ns \<noteq> [] then subgraph G ns else G", OF assms])

lemma subgraph_all: "wf_digraph G \<Longrightarrow> subgraph G (nodes G) = G"
  by (auto simp: subgraph_def wf_digraph_def intro!: filter_True)

text \<open>The total order of a built graph is the greedy emission by sort key.\<close>

lemma total_order_spec:
  assumes o: "priv_operations st = Some ops" and g: "priv_graph st = Some G"
    and b: "build_graph ops = Inr G"
  shows "\<exists>xs. get_all_operations st = (Inr xs, st) \<and> greedy G (sort_key ops) {} xs \<and>
           set xs = set (nodes G) \<and> distinct xs"
proof -
  note bg = build_graph_Inr[OF b]
  have key: "\<forall>n \<in> set (nodes G). custom_key ops n = Inr (sort_key ops n)"
    using bg(3) by (simp add: custom_key_total)
  have "get_all_operations st = (lexicographical_topological_sort G (custom_key ops), st)"
    using topological_sort_cached[OF o g, of "nodes G"] subgraph_all[OF bg(1)]
    by (simp add: get_all_operations_def graph_cached[OF g])
  with lts_spec[OF bg(1) key] bg(2) show ?thesis by (auto split: sum.splits)
qed

text \<open>The order to a closed set of nodes is the total order restricted to it.\<close>

lemma restricted_order_spec:
  assumes o: "priv_operations st = Some ops" and g: "priv_graph st = Some G"
    and b: "build_graph ops = Inr G"
    and ns: "ns \<noteq> []" and closed: "\<forall>n \<in> set ns. preds G n \<subseteq> set ns"
    and xs: "get_all_operations st = (Inr xs, st)"
  shows "topological_sort st ns = (Inr (filter (\<lambda>n. n \<in> set ns) xs), st)"
proof -
  note bg = build_graph_Inr[OF b]
  from total_order_spec[OF o g b] xs have gx: "greedy G (sort_key ops) {} xs" by auto
  have gf: "greedy (subgraph G ns) (sort_key ops) {} (filter (\<lambda>n. n \<in> set ns) xs)"
    using greedy_subgraph[OF closed gx] by simp
  have wf: "wf_digraph (subgraph G ns)" using bg(1) by (rule wf_digraph_subgraph)
  have ac: "acyclic (set (edges (subgraph G ns)))" using bg(2) by (rule acyclic_subgraph)
  have key: "\<forall>n \<in> set (nodes (subgraph G ns)). custom_key ops n = Inr (sort_key ops n)"
    using bg(3) by (auto simp: subgraph_def custom_key_total)
  from lts_spec[OF wf key] ac obtain ys where
    ys: "lexicographical_topological_sort (subgraph G ns) (custom_key ops) = Inr ys"
    and gy: "greedy (subgraph G ns) (sort_key ops) {} ys"
    by (auto split: sum.splits)
  have "ys = filter (\<lambda>n. n \<in> set ns) xs"
    using greedy_unique[OF sort_key_inj gy gf] .
  with ys topological_sort_cached[OF o g, of ns] ns show ?thesis by simp
qed

subsection \<open>Further facts about the state\<close>

lemma consistent_Dag: "consistent (Dag collections)"
  by (simp add: consistent_def Dag_def)

lemma consistent_operations: "consistent st \<Longrightarrow> consistent (snd (operations st))"
proof (cases "priv_operations st")
  case None
  assume c: "consistent st"
  obtain r st' where o: "operations st = (r, st')" by (cases "operations st")
  from c None have "priv_graph st = None" by (auto simp: consistent_def split: option.splits)
  with operations_result(1)[OF o] have "priv_graph st' = None" by simp
  with o show ?thesis by (simp add: consistent_def)
next
  case (Some ops)
  assume "consistent st"
  with Some show ?thesis by (simp add: operations_cached)
qed

lemma consistent_graph: "consistent st \<Longrightarrow> consistent (snd (graph st))"
proof (cases "priv_graph st")
  case None
  assume "consistent st"
  obtain r st1 where o: "operations st = (r, st1)" by (cases "operations st")
  from operations_result[OF o] None have g1: "priv_graph st1 = None"
    and c1: "\<And>ops. r = Inr ops \<Longrightarrow> priv_operations st1 = Some ops" by simp_all
  show ?thesis
  proof (cases r)
    case (Inl e)
    with o None g1 show ?thesis by (simp add: graph_def consistent_def)
  next
    case (Inr ops)
    with o None g1 c1[OF Inr] show ?thesis
      by (cases "build_graph ops") (simp_all add: graph_def consistent_def)
  qed
next
  case (Some G)
  assume "consistent st"
  with Some show ?thesis by (simp add: graph_cached)
qed

lemma consistent_operations_setter: "consistent (operations_setter st v)"
  by (simp add: consistent_def operations_setter_def services_deleter_def
      services_operations_deleter_def graph_deleter_def graph_setter_def)

lemma consistent_collections_setter: "consistent (collections_setter st collections)"
  by (simp add: collections_setter_def operations_deleter_def consistent_operations_setter)

lemma graph_result_full:
  assumes "consistent st" "fst (graph st) = Inr G"
  shows "\<exists>ops. graph st = (Inr G, snd (graph st)) \<and> priv_operations (snd (graph st)) = Some ops \<and>
           priv_graph (snd (graph st)) = Some G \<and> build_graph ops = Inr G \<and>
           fst (operations st) = Inr ops"
proof -
  have g: "graph st = (Inr G, snd (graph st))" using assms(2) by (metis prod.collapse)
  from graph_result[OF assms(1) g] obtain ops where
    r: "priv_operations (snd (graph st)) = Some ops" "priv_graph (snd (graph st)) = Some G"
      "build_graph ops = Inr G" by blast
  have "fst (operations st) = Inr ops"
  proof (cases "priv_graph st")
    case None
    with g obtain ops' st1 where o: "operations st = (Inr ops', st1)"
      and st': "snd (graph st) = st1\<lparr>priv_graph := Some G\<rparr>"
      by (auto simp: graph_def split: prod.splits sum.splits)
    from operations_result(3)[OF o] st' r(1) have "ops' = ops" by simp
    with o show ?thesis by simp
  next
    case (Some G')
    then have "snd (graph st) = st" by (simp add: graph_def)
    with r(1) show ?thesis by (simp add: operations_cached)
  qed
  with g r show ?thesis by blast
qed

lemma get_all_operations_after_graph:
  assumes "graph st = (Inr G, st')" "priv_graph st' = Some G"
  shows "get_all_operations st = get_all_operations st'"
  using assms by (simp add: get_all_operations_def graph_cached)

lemma example_lifecycle_graph:
  "fst (graph example_lifecycle) =
     Inr \<lparr>nodes = [''hdfs_install'', ''zookeeper_config'', ''zookeeper_install''],
          edges = [(''zookeeper_install'', ''zookeeper_config'')]\<rparr>"
  by code_simp

lemma trancl_one_edge: "{(a, b)}\<^sup>+ = {(a, b)}"
proof
  show "{(a, b)}\<^sup>+ \<subseteq> {(a, b)}"
  proof
    fix e assume "e \<in> {(a, b)}\<^sup>+"
    then obtain x y where e: "e = (x, y)" and t: "(x, y) \<in> {(a, b)}\<^sup>+" by (cases e) auto
    from t have "(x, y) = (a, b)" by (induction rule: trancl_induct) auto
    with e show "e \<in> {(a, b)}" by simp
  qed
qed auto




lemma ancestors_closed:
  assumes "ancestors G t = Inr as"
  shows "set (List.union [t] as) = {a. (a, t) \<in> (set (edges G))\<^sup>*}"
    and "\<forall>n \<in> set (List.union [t] as). preds G n \<subseteq> set (List.union [t] as)"
proof -
  from assms have t: "t \<in> set (nodes G)" by (auto simp: ancestors_def split: if_splits)
  from ancestors_spec[OF t] assms have as: "set as = {a. (a, t) \<in> (set (edges G))\<^sup>*} - {t}" by auto
  then show s: "set (List.union [t] as) = {a. (a, t) \<in> (set (edges G))\<^sup>*}" by auto
  show "\<forall>n \<in> set (List.union [t] as). preds G n \<subseteq> set (List.union [t] as)"
    unfolding s by (auto simp: preds_def intro: converse_rtrancl_into_rtrancl)
qed

lemma reach_nodes:
  assumes "wf_digraph G" "t \<in> set (nodes G)" "(a, t) \<in> (set (edges G))\<^sup>*"
  shows "a \<in> set (nodes G)"
  using assms(3,2,1) by (induction rule: converse_rtrancl_induct) (force simp: wf_digraph_def)+

lemma example_cycle_operations: "fst (operations example_cycle) = Inr example_cycle_ops"
  by code_simp

lemma example_cycle_edges:
  "dependency_edges example_cycle_ops = {(''b_start'', ''a_start''), (''a_start'', ''b_start'')}"
  by (auto simp: dependency_edges_def example_cycle_ops_def Operation_def raw_def
      raw_operation.extend_def split: if_splits)







subsection \<open>The log\<close>

lemma check_dependencies_log:
  "check_dependencies ops nm operation deps (l @ lg) =
     (fst (check_dependencies ops nm operation deps lg),
      l @ snd (check_dependencies ops nm operation deps lg))"
proof (induction deps arbitrary: lg)
  case Nil
  then show ?case by simp
next
  case (Cons d deps)
  show ?case
  proof (cases "map_of ops d")
    case None
    then show ?thesis by simp
  next
    case (Some dep)
    let ?w1 = "StartOutsideService nm (service operation) d (service dep) (collection_name operation)"
    let ?w2 = "InstallNeedsNonInstall nm d (collection_name operation)"
    let ?c1 = "suffix ''_start'' d \<and> service dep \<noteq> service operation"
    let ?c2 = "suffix ''_install'' nm \<and> \<not> suffix ''_install'' d"
    let ?lg2 = "(if ?c2 then (if ?c1 then lg @ [?w1] else lg) @ [?w2] else (if ?c1 then lg @ [?w1] else lg))"
    have e: "(if ?c2 then (if ?c1 then (l @ lg) @ [?w1] else l @ lg) @ [?w2]
              else (if ?c1 then (l @ lg) @ [?w1] else l @ lg)) = l @ ?lg2"
      by simp
    have "check_dependencies ops nm operation (d # deps) (l @ lg)
            = check_dependencies ops nm operation deps (l @ ?lg2)"
      using Some e by (simp add: Let_def)
    moreover have "check_dependencies ops nm operation (d # deps) lg
            = check_dependencies ops nm operation deps ?lg2"
      using Some by (simp add: Let_def)
    ultimately show ?thesis using Cons.IH[of ?lg2] by simp
  qed
qed

lemma check_previous_action_log:
  "check_previous_action nm operation (l @ lg) = l @ check_previous_action nm operation lg"
  by (simp add: check_previous_action_def Let_def)

lemma check_playbook_log:
  "check_playbook collections nm operation (l @ lg) =
     (fst (check_playbook collections nm operation lg),
      l @ snd (check_playbook collections nm operation lg))"
  by (simp add: check_playbook_def split: option.splits)

lemma validate_operations_log:
  "validate_operations collections ops todo sa (l @ lg) =
     (fst (validate_operations collections ops todo sa lg),
      l @ snd (validate_operations collections ops todo sa lg))"
proof (induction todo arbitrary: sa lg)
  case Nil
  then show ?case by simp
next
  case (Cons a todo)
  obtain nm operation where a: "a = (nm, operation)" by (cases a)
  obtain r1 lg1 where c1: "check_dependencies ops nm operation (depends_on operation) lg = (r1, lg1)"
    by (cases "check_dependencies ops nm operation (depends_on operation) lg")
  then have c1': "check_dependencies ops nm operation (depends_on operation) (l @ lg) = (r1, l @ lg1)"
    by (simp add: check_dependencies_log)
  show ?case
  proof (cases r1)
    case (Inl e)
    with c1 c1' a show ?thesis by simp
  next
    case (Inr u)
    let ?lg2 = "if is_service operation then check_previous_action nm operation lg1 else lg1"
    let ?sa2 = "if is_service operation
                then add_action (service operation) (action operation) (setdefault (service operation) [] sa)
                else setdefault (service operation) [] sa"
    have p2: "(if is_service operation then check_previous_action nm operation (l @ lg1) else l @ lg1) = l @ ?lg2"
      by (simp add: check_previous_action_log)
    obtain r3 lg3 where c3: "check_playbook collections nm operation ?lg2 = (r3, lg3)"
      by (cases "check_playbook collections nm operation ?lg2")
    then have c3': "check_playbook collections nm operation (l @ ?lg2) = (r3, l @ lg3)"
      by (simp add: check_playbook_log)
    have v: "validate_operations collections ops (a # todo) sa lg =
               (case r3 of Inl e \<Rightarrow> (Inl e, lg3)
                | Inr _ \<Rightarrow> validate_operations collections ops todo ?sa2 lg3)"
      unfolding a using c1 Inr c3 by (simp add: Let_def)
    have v': "validate_operations collections ops (a # todo) sa (l @ lg) =
               (case r3 of Inl e \<Rightarrow> (Inl e, l @ lg3)
                | Inr _ \<Rightarrow> validate_operations collections ops todo ?sa2 (l @ lg3))"
      unfolding a using c1' Inr c3' p2 by (simp add: Let_def)
    show ?thesis unfolding v v' using Cons.IH[of ?sa2 lg3] by (cases r3) simp_all
  qed
qed

text \<open>
  The getters read nothing of the log and only append to it: what was logged before shows
  only as a prefix of the log they leave.
\<close>

lemma validate_body_log:
  "validate_body ops (st\<lparr>logged := l\<rparr>) =
     (fst (validate_body ops (st\<lparr>logged := []\<rparr>)),
      (snd (validate_body ops (st\<lparr>logged := []\<rparr>)))
        \<lparr>logged := l @ logged (snd (validate_body ops (st\<lparr>logged := []\<rparr>)))\<rparr>)"
proof -
  obtain r lg where v: "validate_operations (priv_collections st) ops ops [] [] = (r, lg)"
    by (cases "validate_operations (priv_collections st) ops ops [] []")
  from validate_operations_log[of "priv_collections st" ops ops "[]" l "[]"] v
  have v': "validate_operations (priv_collections st) ops ops [] l = (r, l @ lg)" by simp
  show ?thesis using v v' by (cases r) (simp_all add: validate_body_def)
qed

lemma operations_log:
  "operations (st\<lparr>logged := l\<rparr>) =
     (fst (operations (st\<lparr>logged := []\<rparr>)),
      (snd (operations (st\<lparr>logged := []\<rparr>)))
        \<lparr>logged := l @ logged (snd (operations (st\<lparr>logged := []\<rparr>)))\<rparr>)"
proof (cases "priv_operations st")
  case (Some ops)
  then show ?thesis by (simp add: operations_def)
next
  case None
  show ?thesis
  proof (cases "merge_collections (priv_collections st) []")
    case (Inl e)
    with None show ?thesis by (simp add: operations_def)
  next
    case (Inr ops)
    let ?st1 = "st\<lparr>priv_operations := Some ops\<rparr>"
    obtain r st2 where v: "validate_body ops (?st1\<lparr>logged := []\<rparr>) = (r, st2)"
      by (cases "validate_body ops (?st1\<lparr>logged := []\<rparr>)")
    with validate_body_log[where ops = ops and st = ?st1 and l = l]
    have v': "validate_body ops (?st1\<lparr>logged := l\<rparr>) = (r, st2\<lparr>logged := l @ logged st2\<rparr>)" by simp
    have s: "st\<lparr>logged := l, priv_operations := Some ops\<rparr> = ?st1\<lparr>logged := l\<rparr>"
      "st\<lparr>logged := [], priv_operations := Some ops\<rparr> = ?st1\<lparr>logged := []\<rparr>" by simp_all
    show ?thesis using None Inr v v' unfolding operations_def
      by (cases r) (simp_all add: s del: dag_state.update_convs)
  qed
qed

lemma graph_log:
  "graph (st\<lparr>logged := l\<rparr>) =
     (fst (graph (st\<lparr>logged := []\<rparr>)),
      (snd (graph (st\<lparr>logged := []\<rparr>)))
        \<lparr>logged := l @ logged (snd (graph (st\<lparr>logged := []\<rparr>)))\<rparr>)"
proof (cases "priv_graph st")
  case (Some G)
  then show ?thesis by (simp add: graph_def)
next
  case None
  obtain r st1 where o: "operations (st\<lparr>logged := []\<rparr>) = (r, st1)"
    by (cases "operations (st\<lparr>logged := []\<rparr>)")
  with operations_log[where st = st and l = l]
  have o': "operations (st\<lparr>logged := l\<rparr>) = (r, st1\<lparr>logged := l @ logged st1\<rparr>)" by simp
  show ?thesis
  proof (cases r)
    case (Inl e)
    with None o o' show ?thesis by (simp add: graph_def)
  next
    case (Inr ops)
    with None o o' show ?thesis by (cases "build_graph ops") (simp_all add: graph_def)
  qed
qed

lemma services_operations_log:
  "services_operations (st\<lparr>logged := l\<rparr>) =
     (fst (services_operations (st\<lparr>logged := []\<rparr>)),
      (snd (services_operations (st\<lparr>logged := []\<rparr>)))
        \<lparr>logged := l @ logged (snd (services_operations (st\<lparr>logged := []\<rparr>)))\<rparr>)"
proof (cases "priv_services_operations st")
  case (Some so)
  then show ?thesis by (simp add: services_operations_def)
next
  case None
  let ?st0 = "st\<lparr>priv_services_operations := Some []\<rparr>"
  obtain r st1 where o: "operations (?st0\<lparr>logged := []\<rparr>) = (r, st1)"
    by (cases "operations (?st0\<lparr>logged := []\<rparr>)")
  with operations_log[where st = ?st0 and l = l]
  have o': "operations (?st0\<lparr>logged := l\<rparr>) = (r, st1\<lparr>logged := l @ logged st1\<rparr>)" by simp
  have s: "st\<lparr>logged := l, priv_services_operations := Some []\<rparr> = ?st0\<lparr>logged := l\<rparr>"
    "st\<lparr>logged := [], priv_services_operations := Some []\<rparr> = ?st0\<lparr>logged := []\<rparr>" by simp_all
  show ?thesis using None o o' unfolding services_operations_def
    by (cases r) (simp_all add: s Let_def del: dag_state.update_convs)
qed

lemma services_log:
  "services (st\<lparr>logged := l\<rparr>) =
     (fst (services (st\<lparr>logged := []\<rparr>)),
      (snd (services (st\<lparr>logged := []\<rparr>)))
        \<lparr>logged := l @ logged (snd (services (st\<lparr>logged := []\<rparr>)))\<rparr>)"
proof (cases "priv_services st")
  case (Some so)
  then show ?thesis by (simp add: services_def)
next
  case None
  obtain r st1 where o: "services_operations (st\<lparr>logged := []\<rparr>) = (r, st1)"
    by (cases "services_operations (st\<lparr>logged := []\<rparr>)")
  with services_operations_log[where st = st and l = l]
  have o': "services_operations (st\<lparr>logged := l\<rparr>) = (r, st1\<lparr>logged := l @ logged st1\<rparr>)" by simp
  show ?thesis using None o o' by (cases r) (simp_all add: services_def)
qed

lemma check_dependencies_ok:
  assumes "\<forall>d \<in> set deps. map_of ops d \<noteq> None"
  shows "\<exists>lg'. check_dependencies ops nm operation deps lg = (Inr (), lg') \<and> set lg \<subseteq> set lg'"
  using assms
proof (induction deps arbitrary: lg)
  case Nil
  then show ?case by simp
next
  case (Cons d deps)
  then obtain dep where dep: "map_of ops d = Some dep" by auto
  let ?lg1 = "if suffix ''_start'' d \<and> service dep \<noteq> service operation
              then lg @ [StartOutsideService nm (service operation) d (service dep) (collection_name operation)]
              else lg"
  let ?lg2 = "if suffix ''_install'' nm \<and> \<not> suffix ''_install'' d
              then ?lg1 @ [InstallNeedsNonInstall nm d (collection_name operation)]
              else ?lg1"
  from Cons.prems have "\<forall>d \<in> set deps. map_of ops d \<noteq> None" by simp
  from Cons.IH[OF this, of ?lg2] obtain lg' where
    r: "check_dependencies ops nm operation deps ?lg2 = (Inr (), lg')" and s: "set ?lg2 \<subseteq> set lg'"
    by blast
  have "check_dependencies ops nm operation (d # deps) lg = (Inr (), lg')"
    using dep r by (simp add: Let_def)
  moreover have "set lg \<subseteq> set ?lg2" by auto
  ultimately show ?case using s by blast
qed

lemma check_previous_action_grows: "set lg \<subseteq> set (check_previous_action nm operation lg)"
  by (auto simp: check_previous_action_def Let_def)

lemma check_playbook_ok:
  assumes "map_of collections (collection_name operation) \<noteq> None"
  shows "\<exists>lg'. check_playbook collections nm operation lg = (Inr (), lg') \<and> set lg \<subseteq> set lg'"
  using assms by (auto simp: check_playbook_def)

lemma check_previous_action_warns:
  assumes "action operation \<in> {''config'', ''start'', ''init''}"
    and "service operation @ ''_'' @ previous_action_of (action operation) \<notin> set (depends_on operation)"
  shows "MissingPreviousAction nm (service operation @ ''_'' @ previous_action_of (action operation))
           (collection_name operation) \<in> set (check_previous_action nm operation lg)"
  using assms by (auto simp: check_previous_action_def previous_action_of_def actions_order_def Let_def)

lemma validate_operations_ok:
  assumes "\<forall>(n, operation) \<in> set todo.
             (\<forall>d \<in> set (depends_on operation). map_of ops d \<noteq> None) \<and>
             map_of collections (collection_name operation) \<noteq> None"
  shows "\<exists>sa' lg'. validate_operations collections ops todo sa lg = (Inr sa', lg') \<and>
           set lg \<subseteq> set lg' \<and>
           (\<forall>(n, operation) \<in> set todo.
              is_service operation \<longrightarrow> action operation \<in> {''config'', ''start'', ''init''} \<longrightarrow>
              service operation @ ''_'' @ previous_action_of (action operation) \<notin> set (depends_on operation) \<longrightarrow>
              MissingPreviousAction n (service operation @ ''_'' @ previous_action_of (action operation))
                (collection_name operation) \<in> set lg')"
  using assms
proof (induction todo arbitrary: sa lg)
  case Nil
  then show ?case by simp
next
  case (Cons a todo)
  obtain nm operation where a: "a = (nm, operation)" by (cases a)
  from Cons.prems a have deps: "\<forall>d \<in> set (depends_on operation). map_of ops d \<noteq> None"
    and coll: "map_of collections (collection_name operation) \<noteq> None"
    and rest: "\<forall>(n, operation) \<in> set todo.
             (\<forall>d \<in> set (depends_on operation). map_of ops d \<noteq> None) \<and>
             map_of collections (collection_name operation) \<noteq> None"
    by auto
  from check_dependencies_ok[OF deps, of nm operation lg] obtain lg1 where
    l1: "check_dependencies ops nm operation (depends_on operation) lg = (Inr (), lg1)"
    and s1: "set lg \<subseteq> set lg1" by blast
  let ?sa1 = "setdefault (service operation) [] sa"
  let ?sa2 = "if is_service operation then add_action (service operation) (action operation) ?sa1 else ?sa1"
  let ?lg2 = "if is_service operation then check_previous_action nm operation lg1 else lg1"
  have s2: "set lg1 \<subseteq> set ?lg2" using check_previous_action_grows by auto
  from check_playbook_ok[OF coll, of nm ?lg2] obtain lg3 where
    l3: "check_playbook collections nm operation ?lg2 = (Inr (), lg3)"
    and s3: "set ?lg2 \<subseteq> set lg3" by blast
  from Cons.IH[OF rest, of ?sa2 lg3] obtain sa' lg' where
    r: "validate_operations collections ops todo ?sa2 lg3 = (Inr sa', lg')"
    and s4: "set lg3 \<subseteq> set lg'"
    and w: "\<forall>(n, operation) \<in> set todo.
              is_service operation \<longrightarrow> action operation \<in> {''config'', ''start'', ''init''} \<longrightarrow>
              service operation @ ''_'' @ previous_action_of (action operation) \<notin> set (depends_on operation) \<longrightarrow>
              MissingPreviousAction n (service operation @ ''_'' @ previous_action_of (action operation))
                (collection_name operation) \<in> set lg'"
    by blast
  have v: "validate_operations collections ops (a # todo) sa lg = (Inr sa', lg')"
    unfolding a using l1 l3 r by (simp add: Let_def)
  have here: "is_service operation \<longrightarrow> action operation \<in> {''config'', ''start'', ''init''} \<longrightarrow>
              service operation @ ''_'' @ previous_action_of (action operation) \<notin> set (depends_on operation) \<longrightarrow>
              MissingPreviousAction nm (service operation @ ''_'' @ previous_action_of (action operation))
                (collection_name operation) \<in> set lg'"
  proof (intro impI)
    assume i: "is_service operation" and ac: "action operation \<in> {''config'', ''start'', ''init''}"
      and m: "service operation @ ''_'' @ previous_action_of (action operation) \<notin> set (depends_on operation)"
    from check_previous_action_warns[OF ac m, of nm lg1] i
    have "MissingPreviousAction nm (service operation @ ''_'' @ previous_action_of (action operation))
                (collection_name operation) \<in> set ?lg2" by simp
    with s3 s4 show "MissingPreviousAction nm (service operation @ ''_'' @ previous_action_of (action operation))
                (collection_name operation) \<in> set lg'" by blast
  qed
  have "set lg \<subseteq> set lg'" using s1 s2 s3 s4 by blast
  with v here w show ?case unfolding a by auto
qed

subsection \<open>Patterns\<close>

lemma nullable_accepts: "nullable r \<longleftrightarrow> accepts r []"
proof
  show "nullable r \<Longrightarrow> accepts r []"
  proof (induction r)
    case (Cat r s)
    then have "accepts r []" "accepts s []" by simp_all
    then have "accepts (Cat r s) ([] @ [])" by (rule acc_Cat)
    then show ?case by simp
  qed (auto intro: accepts.intros)
next
  have "accepts r w \<Longrightarrow> w = [] \<Longrightarrow> nullable r" for w
    by (induction rule: accepts.induct) auto
  then show "accepts r [] \<Longrightarrow> nullable r" by simp
qed

lemma accepts_Rep_Cons:
  assumes "accepts r' w" "r' = Rep r" "w = c # v"
  shows "\<exists>u1 u2. v = u1 @ u2 \<and> accepts r (c # u1) \<and> accepts (Rep r) u2"
  using assms
proof (induction arbitrary: v rule: accepts.induct)
  case (acc_RepS r0 u v0)
  then have r0: "r0 = r" by simp
  show ?case
  proof (cases u)
    case Nil
    with acc_RepS show ?thesis by simp
  next
    case (Cons a u')
    with acc_RepS.prems have "a = c" "v = u' @ v0" by simp_all
    with acc_RepS.hyps(1,2) Cons r0 show ?thesis by auto
  qed
qed simp_all

lemma after_accepts_fwd: "accepts r w \<Longrightarrow> w = c # v \<Longrightarrow> accepts (after c r) v"
proof (induction arbitrary: v rule: accepts.induct)
  case (acc_Cat r u s v0)
  show ?case
  proof (cases u)
    case Nil
    with acc_Cat have "accepts (after c s) v" "nullable r"
      by (simp_all add: nullable_accepts)
    then show ?thesis by (simp add: acc_AltR)
  next
    case (Cons a u')
    with acc_Cat.prems have "u = c # u'" "v = u' @ v0" by simp_all
    with acc_Cat have "accepts (Cat (after c r) s) v" by (auto intro: accepts.acc_Cat)
    then show ?thesis by (simp add: acc_AltL)
  qed
next
  case (acc_RepS r u v0)
  show ?case
  proof (cases u)
    case Nil
    with acc_RepS show ?thesis by simp
  next
    case (Cons a u')
    with acc_RepS.prems have "u = c # u'" "v = u' @ v0" by simp_all
    with acc_RepS show ?thesis by (auto intro: accepts.acc_Cat)
  qed
qed (auto intro: accepts.intros)

lemma after_accepts_bwd: "accepts (after c r) v \<Longrightarrow> accepts r (c # v)"
proof (induction r arbitrary: v)
  case Nothing
  then show ?case by (auto elim: accepts.cases)
next
  case Empty
  then show ?case by (auto elim: accepts.cases)
next
  case (Lit d)
  then show ?case by (auto elim: accepts.cases intro: accepts.intros split: if_splits)
next
  case AnyChar
  then show ?case by (auto elim: accepts.cases intro: accepts.intros)
next
  case (Alt r s)
  from Alt.prems have "accepts (after c r) v \<or> accepts (after c s) v"
    by (auto elim: accepts.cases)
  with Alt.IH show ?case by (auto intro: accepts.intros)
next
  case (Cat r s)
  have left: "accepts (Cat (after c r) s) v \<Longrightarrow> accepts (Cat r s) (c # v)"
  proof -
    assume "accepts (Cat (after c r) s) v"
    then obtain u1 u2 where "v = u1 @ u2" "accepts (after c r) u1" "accepts s u2"
      by (auto elim: accepts.cases)
    with Cat.IH(1) have "accepts (Cat r s) ((c # u1) @ u2)" by (intro acc_Cat) auto
    with \<open>v = u1 @ u2\<close> show ?thesis by simp
  qed
  show ?case
  proof (cases "nullable r")
    case True
    with Cat.prems have "accepts (Cat (after c r) s) v \<or> accepts (after c s) v"
      by (auto elim: accepts.cases)
    then show ?thesis
    proof
      assume "accepts (Cat (after c r) s) v"
      then show ?thesis by (rule left)
    next
      assume "accepts (after c s) v"
      with Cat.IH(2) have "accepts s (c # v)" by simp
      moreover have "accepts r []" using True by (simp add: nullable_accepts)
      ultimately have "accepts (Cat r s) ([] @ c # v)" by (intro acc_Cat)
      then show ?thesis by simp
    qed
  next
    case False
    with Cat.prems show ?thesis by (auto intro: left)
  qed
next
  case (Rep r)
  from Rep.prems obtain u1 u2 where v: "v = u1 @ u2" and a: "accepts (after c r) u1"
    and b: "accepts (Rep r) u2"
    by (auto elim: accepts.cases)
  from Rep.IH[OF a] b have "accepts (Rep r) ((c # u1) @ u2)" by (rule acc_RepS)
  with v show ?case by simp
qed

lemma after_accepts: "accepts (after c r) v \<longleftrightarrow> accepts r (c # v)"
  using after_accepts_fwd after_accepts_bwd by blast


lemma re_fullmatch_accepts: "re_fullmatch r s \<longleftrightarrow> accepts r s"
  by (induction s arbitrary: r) (simp_all add: nullable_accepts after_accepts)

section \<open>The claims\<close>

text \<open>
  Claim C1. In a consistent state in which \<open>Dag.graph\<close> returns a graph,
  \<open>get_all_operations\<close> returns a sequence that holds every node of the graph exactly once
  and in which, for every edge from a dependency to its dependent, the index of the
  dependency is strictly less than the index of the dependent.
\<close>

theorem C1_total_order_is_topological:
  assumes "consistent st" and "fst (graph st) = Inr G"
  shows "\<exists>xs. get_all_operations st = (Inr xs, snd (graph st)) \<and>
           set xs = set (nodes G) \<and> distinct xs \<and>
           (\<forall>(u, v) \<in> set (edges G). index_of xs u < index_of xs v)"
proof -
  from graph_result_full[OF assms] obtain ops where
    g: "graph st = (Inr G, snd (graph st))"
    and o: "priv_operations (snd (graph st)) = Some ops"
    and c: "priv_graph (snd (graph st)) = Some G"
    and b: "build_graph ops = Inr G" by blast
  from total_order_spec[OF o c b] obtain xs where
    xs: "get_all_operations (snd (graph st)) = (Inr xs, snd (graph st))"
    and gr: "greedy G (sort_key ops) {} xs"
    and all: "set xs = set (nodes G)" and d: "distinct xs" by blast
  have "\<forall>(u, v) \<in> set (edges G). index_of xs u < index_of xs v"
  proof (clarify)
    fix u v assume e: "(u, v) \<in> set (edges G)"
    with build_graph_Inr(1)[OF b] all have "v \<in> set xs" by (force simp: wf_digraph_def)
    with greedy_edge_order[OF gr e] show "index_of xs u < index_of xs v" by simp
  qed
  with xs all d get_all_operations_after_graph[OF g c] show ?thesis by simp
qed

theorem C1_witness:
  "consistent example_lifecycle \<and>
   fst (graph example_lifecycle) =
     Inr \<lparr>nodes = [''hdfs_install'', ''zookeeper_config'', ''zookeeper_install''],
          edges = [(''zookeeper_install'', ''zookeeper_config'')]\<rparr> \<and>
   (\<exists>xs. get_all_operations example_lifecycle = (Inr xs, snd (graph example_lifecycle)) \<and>
      set xs = {''hdfs_install'', ''zookeeper_config'', ''zookeeper_install''} \<and> distinct xs \<and>
      index_of xs ''zookeeper_install'' < index_of xs ''zookeeper_config'')"
proof -
  have c: "consistent example_lifecycle"
    by (simp add: consistent_def example_lifecycle_def Dag_def)
  note g = example_lifecycle_graph
  from C1_total_order_is_topological[OF c g] show ?thesis using c g by auto
qed




text \<open>
  Claim C3. An operation whose \<open>depends_on\<close> names a missing operation should make
  construction fail with the error of line 189, which names the dependency and the operation.
  On first access the code does not get that far: \<open>Dag.graph\<close> reads \<open>self.operations\<close>,
  which calls \<open>validate\<close>, and \<open>validate\<close> looks the dependency up at line 275. It raises
  \<open>KeyError\<close> with the dependency alone. \<open>self._operations\<close> is set by then, so a second
  access skips \<open>validate\<close> and raises the intended error.
\<close>

theorem C3_unknown_dependency_raises_KeyError:
  "fst (graph example_missing) = Inl (KeyError ''missing_op'') \<and>
   fst (graph (snd (graph example_missing))) = Inl (UnknownDependency ''missing_op'' ''a_config'')"
  by code_simp

text \<open>
  Claim C4. In a consistent state in which \<open>Dag.graph\<close> returns a graph with node \<open>t\<close>,
  \<open>get_operations_to_nodes\<close> on \<open>[t]\<close> returns, each once, \<open>t\<close> and the nodes from which
  a path leads to \<open>t\<close>, and nothing else; the sequence is a subsequence of the one
  \<open>get_all_operations\<close> returns.
\<close>

theorem C4_order_to_one_target:
  assumes "consistent st" and "fst (graph st) = Inr G" and "t \<in> set (nodes G)"
  shows "\<exists>ys xs. fst (get_operations_to_nodes st [t]) = Inr ys \<and>
           fst (get_all_operations st) = Inr xs \<and>
           set ys = insert t {a. (a, t) \<in> (set (edges G))\<^sup>+} \<and> distinct ys \<and> subseq ys xs"
proof -
  obtain st' where g: "graph st = (Inr G, st')" using assms(2) by (cases "graph st") auto
  then have s: "snd (graph st) = st'" by simp
  from graph_result_full[OF assms(1,2)] obtain ops where
    o: "priv_operations st' = Some ops"
    and c: "priv_graph st' = Some G"
    and b: "build_graph ops = Inr G" unfolding s by blast
  note bg = build_graph_Inr[OF b]
  let ?st = "st'"
  from total_order_spec[OF o c b] obtain xs where
    xs: "get_all_operations ?st = (Inr xs, ?st)"
    and all: "set xs = set (nodes G)" and d: "distinct xs" by blast
  from ancestors_spec[OF assms(3)] obtain as where as: "ancestors G t = Inr as" by blast
  let ?S = "List.union [t] as"
  note cl = ancestors_closed[OF as]
  have ne: "?S \<noteq> []" using cl(1) by (metis (mono_tags, lifting) empty_iff empty_set mem_Collect_eq rtrancl.rtrancl_refl)
  have ts: "topological_sort ?st ?S = (Inr (filter (\<lambda>n. n \<in> set ?S) xs), ?st)"
    using restricted_order_spec[OF o c b ne cl(2) xs] .
  have "get_operations_to_nodes st [t] = topological_sort ?st ?S"
    using g as by (simp add: get_operations_to_nodes_def)
  with ts have ys: "fst (get_operations_to_nodes st [t]) = Inr (filter (\<lambda>n. n \<in> set ?S) xs)" by simp
  have sub: "set ?S \<subseteq> set xs"
    unfolding all cl(1) using reach_nodes[OF bg(1) assms(3)] by auto
  have "{a. (a, t) \<in> (set (edges G))\<^sup>*} = insert t {a. (a, t) \<in> (set (edges G))\<^sup>+}"
    by (auto simp: rtrancl_eq_or_trancl)
  with sub cl(1) have "set (filter (\<lambda>n. n \<in> set ?S) xs) = insert t {a. (a, t) \<in> (set (edges G))\<^sup>+}"
    by auto
  moreover have "distinct (filter (\<lambda>n. n \<in> set ?S) xs)" using d by simp
  moreover have "subseq (filter (\<lambda>n. n \<in> set ?S) xs) xs" by simp
  moreover have "fst (get_all_operations st) = Inr xs"
    using xs get_all_operations_after_graph[OF g c] by simp
  ultimately show ?thesis using ys by blast
qed

theorem C4_witness:
  "consistent example_lifecycle \<and>
   fst (graph example_lifecycle) =
     Inr \<lparr>nodes = [''hdfs_install'', ''zookeeper_config'', ''zookeeper_install''],
          edges = [(''zookeeper_install'', ''zookeeper_config'')]\<rparr> \<and>
   ''zookeeper_config'' \<in> set [''hdfs_install'', ''zookeeper_config'', ''zookeeper_install''] \<and>
   (\<exists>ys xs. fst (get_operations_to_nodes example_lifecycle [''zookeeper_config'']) = Inr ys \<and>
      fst (get_all_operations example_lifecycle) = Inr xs \<and>
      set ys = {''zookeeper_config'', ''zookeeper_install''} \<and> distinct ys \<and> subseq ys xs)"
proof -
  let ?G = "\<lparr>nodes = [''hdfs_install'', ''zookeeper_config'', ''zookeeper_install''],
          edges = [(''zookeeper_install'', ''zookeeper_config'')]\<rparr>"
  have c: "consistent example_lifecycle"
    by (simp add: consistent_def example_lifecycle_def Dag_def)
  have n: "''zookeeper_config'' \<in> set (nodes ?G)" by simp
  have "{a. (a, ''zookeeper_config'') \<in> (set (edges ?G))\<^sup>+} = {''zookeeper_install''}"
    by (simp add: trancl_one_edge)
  with C4_order_to_one_target[OF c example_lifecycle_graph n]
  show ?thesis using c example_lifecycle_graph by (simp add: insert_commute)
qed

text \<open>
  Claim C5. Whenever \<open>Dag.graph\<close> has no cached graph it builds one and tests it: if the
  operations it reads resolve all their dependencies and the edges they declare contain a
  cycle, it raises the "Not a DAG" error and caches nothing; and a graph it returns is
  acyclic and is the one it caches.
\<close>

theorem C5_cycle_makes_graph_fail:
  assumes "priv_graph st = None"
  shows "(\<forall>ops st1. operations st = (Inr ops, st1) \<and>
            (\<forall>(d, n) \<in> dependency_edges ops. map_of ops d \<noteq> None) \<and>
            \<not> acyclic (dependency_edges ops)
            \<longrightarrow> graph st = (Inl NotADag, st1) \<and> priv_graph st1 = None) \<and>
         (\<forall>G st'. graph st = (Inr G, st')
            \<longrightarrow> acyclic (set (edges G)) \<and> priv_graph st' = Some G)"
proof (intro conjI allI impI)
  fix ops st1
  assume h: "operations st = (Inr ops, st1) \<and>
            (\<forall>(d, n) \<in> dependency_edges ops. map_of ops d \<noteq> None) \<and>
            \<not> acyclic (dependency_edges ops)"
  then have o: "operations st = (Inr ops, st1)"
    and r: "\<forall>(d, n) \<in> dependency_edges ops. map_of ops d \<noteq> None"
    and cyc: "\<not> acyclic (dependency_edges ops)" by blast+
  from build_graph_cases[OF r] cyc have b: "build_graph ops = Inl NotADag" by blast
  show "graph st = (Inl NotADag, st1)" using assms o b by (simp add: graph_def)
  show "priv_graph st1 = None" using operations_result(1)[OF o] assms by simp
next
  fix G st'
  assume g: "graph st = (Inr G, st')"
  with assms obtain ops st1 where "build_graph ops = Inr G" "st' = st1\<lparr>priv_graph := Some G\<rparr>"
    by (auto simp: graph_def split: prod.splits sum.splits)
  then show "acyclic (set (edges G))" "priv_graph st' = Some G"
    using build_graph_Inr(2) by auto
qed

theorem C5_witness:
  "priv_graph example_cycle = None \<and>
   fst (operations example_cycle) = Inr example_cycle_ops \<and>
   map_of example_cycle_ops ''a_start'' \<noteq> None \<and> map_of example_cycle_ops ''b_start'' \<noteq> None \<and>
   dependency_edges example_cycle_ops = {(''b_start'', ''a_start''), (''a_start'', ''b_start'')} \<and>
   \<not> acyclic (dependency_edges example_cycle_ops) \<and>
   fst (graph example_cycle) = Inl NotADag \<and>
   priv_graph (snd (graph example_cycle)) = None"
proof -
  have n: "priv_graph example_cycle = None" by (simp add: example_cycle_def Dag_def)
  obtain st1 where o: "operations example_cycle = (Inr example_cycle_ops, st1)"
    using example_cycle_operations by (cases "operations example_cycle") auto
  have r: "\<forall>(d, n) \<in> dependency_edges example_cycle_ops. map_of example_cycle_ops d \<noteq> None"
    unfolding example_cycle_edges by (simp add: example_cycle_ops_def)
  have "(''a_start'', ''a_start'') \<in> (dependency_edges example_cycle_ops)\<^sup>+"
    unfolding example_cycle_edges
    by (rule trancl_trans[of _ "''b_start''"]) (rule r_into_trancl, simp)+
  then have cyc: "\<not> acyclic (dependency_edges example_cycle_ops)" by (auto simp: acyclic_def)
  from C5_cycle_makes_graph_fail[OF n] o r cyc
  have "graph example_cycle = (Inl NotADag, st1) \<and> priv_graph st1 = None" by blast
  moreover have "map_of example_cycle_ops ''a_start'' \<noteq> None"
    "map_of example_cycle_ops ''b_start'' \<noteq> None"
    by (simp_all add: example_cycle_ops_def)
  ultimately show ?thesis using n example_cycle_operations example_cycle_edges cyc by simp
qed



text \<open>
  Claim C7. Assigning to \<open>collections\<close> stores the new mapping and runs the deleters of
  \<open>operations\<close>, \<open>graph\<close>, \<open>services_operations\<close> and \<open>services\<close> in this order. The state
  it leaves is the state of a \<open>Dag\<close> newly made from the new mapping, apart from what was
  logged before: all four caches are empty. What \<open>operations\<close>, \<open>graph\<close>,
  \<open>services_operations\<close> and \<open>services\<close> return next is what they return on that new
  \<open>Dag\<close>; nothing of the state before the assignment shows in it.
\<close>

theorem C7_collections_setter_clears_caches:
  "collections_setter st collections = (Dag collections)\<lparr>logged := logged st\<rparr> \<and>
   fst (operations (collections_setter st collections)) = fst (operations (Dag collections)) \<and>
   fst (graph (collections_setter st collections)) = fst (graph (Dag collections)) \<and>
   fst (services_operations (collections_setter st collections))
     = fst (services_operations (Dag collections)) \<and>
   fst (services (collections_setter st collections)) = fst (services (Dag collections))"
proof -
  have e: "collections_setter st collections = (Dag collections)\<lparr>logged := logged st\<rparr>"
    by (simp add: collections_setter_def operations_deleter_def operations_setter_def
      services_deleter_def services_operations_deleter_def graph_deleter_def graph_setter_def Dag_def)
  have d: "(Dag collections)\<lparr>logged := []\<rparr> = Dag collections" by (simp add: Dag_def)
  show ?thesis
    unfolding e
    using operations_log[where st = "Dag collections" and l = "logged st"]
      graph_log[where st = "Dag collections" and l = "logged st"]
      services_operations_log[where st = "Dag collections" and l = "logged st"]
      services_log[where st = "Dag collections" and l = "logged st"]
    by (simp add: d)
qed

text \<open>
  Claim C8, as stated, fails. The check of the previous action is inside
  \<open>if operation.is_service():\<close>. \<open>hdfs_namenode_start\<close> has the action \<open>start\<close> and does
  not depend on \<open>hdfs_config\<close>, but \<open>is_service()\<close> is false for it, and \<open>validate\<close>
  logs nothing about its previous action. (A first \<open>validate\<close> on a new \<open>Dag\<close> validates
  twice, once inside \<open>self.operations\<close>: the log holds the same record twice.)
\<close>

theorem C8_counterexample:
  "fst (operations example_component) =
     Inr [(''hdfs_namenode_start'', Operation ''tdp'' (raw ''hdfs_namenode_start'' ''hdfs'' ''start'' False []))] \<and>
   action (Operation ''tdp'' (raw ''hdfs_namenode_start'' ''hdfs'' ''start'' False [])) = ''start'' \<and>
   ''hdfs_config'' \<notin> set (depends_on (Operation ''tdp'' (raw ''hdfs_namenode_start'' ''hdfs'' ''start'' False []))) \<and>
   fst (validate example_component) = Inr () \<and>
   logged (snd (validate example_component)) =
     [ServiceMissingActions ''hdfs'' [], ServiceMissingActions ''hdfs'' []]"
  by code_simp

text \<open>
  Claim C8, amended. Let the cached operations resolve every dependency they name and come
  from collections of the mapping. For every one of them for which \<open>is_service()\<close> holds
  and whose action is \<open>config\<close>, \<open>start\<close> or \<open>init\<close>, if \<open>depends_on\<close> does not
  contain the service name, an underscore and the previous action, \<open>validate\<close> returns
  normally and has logged the missing-previous-action warning for that operation.
\<close>

theorem C8_missing_previous_action_warning:
  assumes "priv_operations st = Some ops"
    and "\<forall>(n, operation) \<in> set ops.
           (\<forall>d \<in> set (depends_on operation). map_of ops d \<noteq> None) \<and>
           map_of (priv_collections st) (collection_name operation) \<noteq> None"
    and "(nm, operation) \<in> set ops"
    and "is_service operation"
    and "action operation \<in> {''config'', ''start'', ''init''}"
    and "service operation @ ''_'' @ previous_action_of (action operation) \<notin> set (depends_on operation)"
  shows "\<exists>st'. validate st = (Inr (), st') \<and>
           MissingPreviousAction nm (service operation @ ''_'' @ previous_action_of (action operation))
             (collection_name operation) \<in> set (logged st')"
proof -
  from validate_operations_ok[OF assms(2), of "[]" "logged st"] obtain sa' lg' where
    v: "validate_operations (priv_collections st) ops ops [] (logged st) = (Inr sa', lg')"
    and w: "\<forall>(n, operation) \<in> set ops.
              is_service operation \<longrightarrow> action operation \<in> {''config'', ''start'', ''init''} \<longrightarrow>
              service operation @ ''_'' @ previous_action_of (action operation) \<notin> set (depends_on operation) \<longrightarrow>
              MissingPreviousAction n (service operation @ ''_'' @ previous_action_of (action operation))
                (collection_name operation) \<in> set lg'"
    by blast
  from w assms(3-6) have "MissingPreviousAction nm (service operation @ ''_'' @ previous_action_of (action operation))
             (collection_name operation) \<in> set lg'" by blast
  moreover have "validate st = (Inr (), st\<lparr>logged := lg' @ check_services sa'\<rparr>)"
    using assms(1) v by (simp add: validate_def operations_cached validate_body_def)
  ultimately show ?thesis by simp
qed

theorem C8_witness:
  "priv_operations (snd (operations example_service_start))
     = Some [(''hdfs_start'', Operation ''tdp'' (raw ''hdfs_start'' ''hdfs'' ''start'' True []))] \<and>
   is_service (Operation ''tdp'' (raw ''hdfs_start'' ''hdfs'' ''start'' True [])) \<and>
   action (Operation ''tdp'' (raw ''hdfs_start'' ''hdfs'' ''start'' True [])) = ''start'' \<and>
   previous_action_of ''start'' = ''config'' \<and>
   ''hdfs_config'' \<notin> set (depends_on (Operation ''tdp'' (raw ''hdfs_start'' ''hdfs'' ''start'' True []))) \<and>
   (\<exists>st'. validate (snd (operations example_service_start)) = (Inr (), st') \<and>
      MissingPreviousAction ''hdfs_start'' ''hdfs_config'' ''tdp'' \<in> set (logged st'))"
proof -
  let ?op = "Operation ''tdp'' (raw ''hdfs_start'' ''hdfs'' ''start'' True [])"
  let ?st = "snd (operations example_service_start)"
  have o: "priv_operations ?st = Some [(''hdfs_start'', ?op)]" by code_simp
  have c: "priv_collections ?st = priv_collections example_service_start"
    using operations_result(2)[of example_service_start "fst (operations example_service_start)" ?st]
    by simp
  have f: "is_service ?op" "action ?op = ''start''" "depends_on ?op = []" "service ?op = ''hdfs''"
    "collection_name ?op = ''tdp''"
    by (simp_all add: Operation_def raw_def raw_operation.extend_def)
  have p: "previous_action_of ''start'' = ''config''" by code_simp
  have r: "\<forall>(n, operation) \<in> set [(''hdfs_start'', ?op)].
           (\<forall>d \<in> set (depends_on operation). map_of [(''hdfs_start'', ?op)] d \<noteq> None) \<and>
           map_of (priv_collections ?st) (collection_name operation) \<noteq> None"
    unfolding c by (simp add: f example_service_start_def Dag_def one_collection_def)
  have m: "(''hdfs_start'', ?op) \<in> set [(''hdfs_start'', ?op)]" by simp
  have a: "action ?op \<in> {''config'', ''start'', ''init''}" by (simp add: f)
  have n: "service ?op @ ''_'' @ previous_action_of (action ?op) \<notin> set (depends_on ?op)"
    by (simp add: f)
  from C8_missing_previous_action_warning[OF o r m f(1) a n]
  show ?thesis using o f p by simp
qed



text \<open>
  Claim C10. With non-empty \<open>sources\<close> and \<open>targets\<close>, \<open>get_operations\<close> is
  \<open>get_operations_from_nodes\<close> on the sources, the same as without targets; with both
  absent or empty it is \<open>get_all_operations\<close>.
\<close>

theorem C10_sources_win_over_targets:
  "(sources \<noteq> [] \<longrightarrow>
      get_operations st (Some sources) (Some targets) = get_operations_from_nodes st sources \<and>
      get_operations st (Some sources) (Some targets) = get_operations st (Some sources) None) \<and>
   (\<not> truthy s \<and> \<not> truthy t \<longrightarrow> get_operations st s t = get_all_operations st)"
  by (simp add: get_operations_def truthy_def)

theorem C10_witness:
  "[''zookeeper_install''] \<noteq> [] \<and>
   get_operations example_lifecycle (Some [''zookeeper_install'']) (Some [''hdfs_install''])
     = get_operations_from_nodes example_lifecycle [''zookeeper_install''] \<and>
   get_operations example_lifecycle (Some [''zookeeper_install'']) (Some [''hdfs_install''])
     = get_operations example_lifecycle (Some [''zookeeper_install'']) None \<and>
   \<not> truthy (Some ([] :: string list)) \<and> \<not> truthy (None :: string list option) \<and>
   get_operations example_lifecycle (Some []) None = get_all_operations example_lifecycle"
proof -
  have t: "\<not> truthy (Some ([] :: string list))" "\<not> truthy (None :: string list option)"
    by (simp_all add: truthy_def)
  have n: "[''zookeeper_install''] \<noteq> []" by simp
  from C10_sources_win_over_targets[of "[''zookeeper_install'']" example_lifecycle
      "[''hdfs_install'']" "Some []" None]
  show ?thesis using t n by blast
qed

end
